theory Spec2Isabelle
  imports Complex_Main "HOL-Library.Multiset"
begin

section \<open>Strings and file names\<close>

text \<open>
  A JavaScript string is a sequence of UTF-16 code units; a code unit is modelled by its
  number. Source literals are written with \<open>str\<close>, which maps an ASCII literal to its
  code units. Numbers are treated in the section on JavaScript numbers below.
\<close>

type_synonym jsstring = "nat list"

definition str :: "string \<Rightarrow> jsstring" where
  "str s = map of_char s"

text \<open>
  The class \<open>\s\<close> of a regular expression and the characters removed by \<open>trim()\<close>
  are the same set: TAB, LF, VT, FF, CR, SP, NBSP, U+1680, U+2000..U+200A, U+2028, U+2029,
  U+202F, U+205F, U+3000 and U+FEFF.
\<close>

definition isWhiteSpace :: "nat \<Rightarrow> bool" where
  "isWhiteSpace c \<longleftrightarrow>
     c \<in> {9, 10, 11, 12, 13, 32, 160, 5760, 8232, 8233, 8239, 8287, 12288, 65279}
     \<or> (8192 \<le> c \<and> c \<le> 8202)"

text \<open>The character class \<open>[<>:"/\\|?*]\<close>: the characters \<open>< > : " / \ | ? *\<close>.\<close>

definition invalidChar :: "nat \<Rightarrow> bool" where
  "invalidChar c \<longleftrightarrow> c \<in> {60, 62, 58, 34, 47, 92, 124, 63, 42}"

text \<open>
  \<open>replace(/\s+/g, ' ')\<close>: every maximal run of white space becomes one space. The flag
  says whether the previous code unit belonged to a run that has already been replaced.
\<close>

fun collapseRuns :: "bool \<Rightarrow> jsstring \<Rightarrow> jsstring" where
  "collapseRuns inRun [] = []"
| "collapseRuns inRun (c # cs) =
     (if isWhiteSpace c
      then (if inRun then collapseRuns True cs else 32 # collapseRuns True cs)
      else c # collapseRuns False cs)"

definition trim :: "jsstring \<Rightarrow> jsstring" where
  "trim s = rev (dropWhile isWhiteSpace (rev (dropWhile isWhiteSpace s)))"

text \<open>
  \<open>sanitizeFileName\<close> (and the same three calls written inline for \<open>cleanShowName\<close> in
  \<open>organizeLibrary\<close>): remove the invalid characters, collapse white space, trim.
\<close>

definition sanitizeFileName :: "jsstring \<Rightarrow> jsstring" where
  "sanitizeFileName name =
     trim (collapseRuns False (filter (\<lambda>c. \<not> invalidChar c) name))"

definition cleanShowName :: "jsstring \<Rightarrow> jsstring" where
  "cleanShowName showName =
     trim (collapseRuns False (filter (\<lambda>c. \<not> invalidChar c) showName))"

text \<open>
  A string is in collapsed form when each white-space code unit in it is a single space
  that follows a code unit that is not white space (or, when the flag is off, starts the string).
\<close>

fun collapsedForm :: "bool \<Rightarrow> jsstring \<Rightarrow> bool" where
  "collapsedForm inRun [] = True"
| "collapsedForm inRun (c # cs) =
     (if isWhiteSpace c then \<not> inRun \<and> c = 32 \<and> collapsedForm True cs
      else collapsedForm False cs)"

section \<open>Paths\<close>

text \<open>
  A path is the list of its components, so \<open>join(dir, name)\<close> with a single-component
  \<open>name\<close> appends it, and \<open>relative(from, to)\<close> climbs out of what \<open>from\<close> does not
  share with \<open>to\<close> and descends into the rest of \<open>to\<close>. \<open>extname\<close> follows Node:
  the extension of the last component starts at its last dot, and is empty when there is
  no dot, when the only dot is the first character, and for the component \<open>..\<close>.
\<close>

type_synonym path = "jsstring list"

definition join :: "path \<Rightarrow> jsstring \<Rightarrow> path" where
  "join dir name = dir @ [name]"

fun commonPrefix :: "path \<Rightarrow> path \<Rightarrow> nat" where
  "commonPrefix (a # as) (b # bs) = (if a = b then Suc (commonPrefix as bs) else 0)"
| "commonPrefix _ _ = 0"

definition relative :: "path \<Rightarrow> path \<Rightarrow> path" where
  "relative from to =
     (let k = commonPrefix from to
      in replicate (length from - k) (str ''..'') @ drop k to)"

fun lastDot :: "jsstring \<Rightarrow> nat option" where
  "lastDot [] = None"
| "lastDot (c # cs) =
     (case lastDot cs of
        Some i \<Rightarrow> Some (Suc i)
      | None \<Rightarrow> if c = 46 then Some 0 else None)"

definition extnameOf :: "jsstring \<Rightarrow> jsstring" where
  "extnameOf base =
     (case lastDot base of
        None \<Rightarrow> []
      | Some i \<Rightarrow> if i = 0 \<or> base = str ''..'' then [] else drop i base)"

definition extname :: "path \<Rightarrow> jsstring" where
  "extname p = (if p = [] then [] else extnameOf (last p))"

definition startsWith :: "jsstring \<Rightarrow> jsstring \<Rightarrow> bool" where
  "startsWith s pre \<longleftrightarrow> take (length pre) s = pre"

text \<open>
  \<open>toLowerCase\<close>, exact wherever the result holds an ASCII letter: the letters A to Z, the
  Kelvin sign U+212A, whose lower case is \<open>k\<close>, and U+0130, whose lower case is \<open>i\<close>
  followed by U+0307. Every other code unit is kept; JavaScript maps some of them to
  other code units outside ASCII, which never makes a string equal to an ASCII one.
\<close>

definition lowerCaseOf :: "nat \<Rightarrow> jsstring" where
  "lowerCaseOf c =
     (if 65 \<le> c \<and> c \<le> 90 then [c + 32]
      else if c = 8490 then [107]
      else if c = 304 then [105, 775]
      else [c])"

definition toLowerCase :: "jsstring \<Rightarrow> jsstring" where
  "toLowerCase s = concat (map lowerCaseOf s)"

section \<open>Shared types\<close>

text \<open>
  The interfaces of \<open>shared/types.ts\<close> as records. Several interfaces use the same
  field name, so each record's fields carry a short prefix before the source's name.
  Sizes, counts, season and episode numbers are natural numbers. The matcher's schema
  admits only positive integers as season and episode numbers; the corrected numbers of a
  review decision are not validated by the code and are taken to be non-negative integers
  as well.
\<close>

record SourceFileInfo =
  sf_path :: path
  sf_relativePath :: path
  sf_name :: jsstring
  sf_size :: nat

datatype SubtitleSource = embedded | external

record ExtractedSubtitles =
  es_filePath :: path
  es_fileName :: jsstring
  es_content :: jsstring
  es_source :: SubtitleSource
  es_language :: "jsstring option"

record AnimeTitle =
  romaji :: jsstring
  english :: "jsstring option"
  native :: "jsstring option"

record AnimeSearchResult =
  as_anilistId :: nat
  as_title :: AnimeTitle
  as_episodes :: "nat option"
  as_format :: jsstring
  as_status :: jsstring

record AnimeEpisode =
  ae_number :: nat
  ae_title :: "jsstring option"
  ae_description :: "jsstring option"

record SeasonInfo =
  si_seasonNumber :: nat
  si_anilistId :: nat
  si_romaji :: jsstring
  si_english :: "jsstring option"
  si_episodeCount :: nat
  si_episodes :: "AnimeEpisode list"

record SeriesMetadata =
  seriesName :: jsstring
  seasons :: "SeasonInfo list"
  totalCoreEpisodes :: nat

record EpisodeMatch =
  em_fileName :: jsstring
  em_filePath :: path
  em_seasonNumber :: nat
  em_episodeNumber :: nat
  em_episodeTitle :: jsstring
  em_confidence :: real
  em_reasoning :: jsstring

record RenamedFile =
  rf_originalPath :: path
  rf_originalRelativePath :: path
  rf_newPath :: path
  rf_newFileName :: jsstring
  rf_seasonNumber :: nat
  rf_episodeNumber :: nat

section \<open>JavaScript numbers\<close>

text \<open>
  A JavaScript \<open>number\<close> is an IEEE 754 double. A double is modelled by the real number
  it stands for; every integer of magnitude below \<open>2^53\<close> is a double, and sums and
  differences of doubles that are such integers again are exact. \<open>fl\<close> rounds a real
  number to the nearest double, ties to the even significand: the exponent of \<open>x\<close> is the
  \<open>e\<close> with \<open>2^e \<le> x < 2^(e+1)\<close>, a double with that exponent is a multiple of
  \<open>2^(e-52)\<close>. The range of the exponent is not limited here: the quotients and products
  below lie between \<open>2^-1022\<close> and \<open>2^1024\<close> in magnitude, where a double neither
  overflows nor loses digits to underflow. \<open>fdiv\<close>, \<open>fmul\<close> and \<open>fadd\<close> are the
  operators \<open>/\<close>, \<open>*\<close> and \<open>+\<close> on doubles.
\<close>

function expoUp :: "real \<Rightarrow> int" where
  "expoUp x = (if x < 2 then 0 else 1 + expoUp (x / 2))"
  by pat_completeness auto
termination
proof (relation "measure (\<lambda>x. nat \<lfloor>x\<rfloor>)")
  show "wf (measure (\<lambda>x::real. nat \<lfloor>x\<rfloor>))" by simp
next
  fix x :: real
  assume "\<not> x < 2"
  then have "x / 2 \<le> x - 1" by simp
  then have "\<lfloor>x / 2\<rfloor> \<le> \<lfloor>x - 1\<rfloor>" by (rule floor_mono)
  moreover have "1 \<le> \<lfloor>x\<rfloor>" using \<open>\<not> x < 2\<close> by linarith
  ultimately show "(x / 2, x) \<in> measure (\<lambda>x. nat \<lfloor>x\<rfloor>)" by simp
qed

function expoDown :: "real \<Rightarrow> int" where
  "expoDown x = (if x \<le> 0 \<or> 1 \<le> x then 0 else expoDown (2 * x) - 1)"
  by pat_completeness auto
termination
proof (relation "measure (\<lambda>x. nat \<lceil>1 / x\<rceil>)")
  show "wf (measure (\<lambda>x::real. nat \<lceil>1 / x\<rceil>))" by simp
next
  fix x :: real
  assume "\<not> (x \<le> 0 \<or> 1 \<le> x)"
  then have x: "0 < x" "x < 1" by simp_all
  then have "1 < 1 / x" by simp
  then have two: "2 \<le> \<lceil>1 / x\<rceil>" by linarith
  have "1 / x \<le> of_int \<lceil>1 / x\<rceil>" by (rule le_of_int_ceiling)
  then have "1 / (2 * x) \<le> of_int \<lceil>1 / x\<rceil> / 2" by simp
  also have "\<dots> \<le> of_int (\<lceil>1 / x\<rceil> - 1)" using two by simp
  finally have "\<lceil>1 / (2 * x)\<rceil> \<le> \<lceil>1 / x\<rceil> - 1" by (rule ceiling_le)
  then show "(2 * x, x) \<in> measure (\<lambda>x. nat \<lceil>1 / x\<rceil>)" using two x by simp
qed

declare expoUp.simps [simp del] expoDown.simps [simp del]

definition exponent :: "real \<Rightarrow> int" where
  "exponent x = (if 1 \<le> x then expoUp x else expoDown x)"

definition roundHalfEven :: "real \<Rightarrow> int" where
  "roundHalfEven q =
     (let f = \<lfloor>q\<rfloor>; r = q - of_int f
      in if r < 1 / 2 then f else if 1 / 2 < r then f + 1 else if even f then f else f + 1)"

definition ulp :: "real \<Rightarrow> real" where
  "ulp x = 2 powi (exponent x - 52)"

definition fl :: "real \<Rightarrow> real" where
  "fl x = (if x = 0 then 0
           else if x < 0 then - (of_int (roundHalfEven (- x / ulp (- x))) * ulp (- x))
           else of_int (roundHalfEven (x / ulp x)) * ulp x)"

definition fdiv :: "real \<Rightarrow> real \<Rightarrow> real" where
  "fdiv a b = fl (a / b)"

definition fmul :: "real \<Rightarrow> real \<Rightarrow> real" where
  "fmul a b = fl (a * b)"

definition fadd :: "real \<Rightarrow> real \<Rightarrow> real" where
  "fadd a b = fl (a + b)"

text \<open>
  A natural number stands for the number that holds it when it is below \<open>2^53\<close>
  (\<open>Number.isSafeInteger\<close>): sizes, lengths, season and episode numbers.
\<close>

definition isSafeInteger :: "nat \<Rightarrow> bool" where
  "isSafeInteger n \<longleftrightarrow> n < 2 ^ 53"

section \<open>The LLM matcher: proportional truncation\<close>

definition MAX_TOTAL_CHARS :: nat where
  "MAX_TOTAL_CHARS = 500000"

text \<open>\<open>subtitles.reduce((sum, sub) => sum + sub.content.length, 0)\<close>\<close>

definition totalChars :: "ExtractedSubtitles list \<Rightarrow> nat" where
  "totalChars subtitles = foldl (\<lambda>sum sub. sum + length (es_content sub)) 0 subtitles"

definition needsTruncation :: "ExtractedSubtitles list \<Rightarrow> bool" where
  "needsTruncation subtitles \<longleftrightarrow> totalChars subtitles > MAX_TOTAL_CHARS"

text \<open>
  \<open>Math.floor((sub.content.length / totalChars) * MAX_TOTAL_CHARS)\<close>: the quotient and
  the product are rounded to doubles before the floor is taken.
\<close>

definition allowedChars :: "nat \<Rightarrow> ExtractedSubtitles \<Rightarrow> nat" where
  "allowedChars totalCount sub =
     nat \<lfloor>fmul (fdiv (real (length (es_content sub))) (real totalCount)) (real MAX_TOTAL_CHARS)\<rfloor>"

text \<open>
  The \<open>content\<close> of one file at the end of the \<open>map\<close> callback, the block that the
  callback returns for the file, and the blocks joined by an empty line: \<open>fileSnippets\<close>,
  the text placed in the prompt.
\<close>

definition snippetContent :: "ExtractedSubtitles list \<Rightarrow> ExtractedSubtitles \<Rightarrow> jsstring" where
  "snippetContent subtitles sub =
     (if needsTruncation subtitles
      then take (allowedChars (totalChars subtitles) sub) (es_content sub)
      else es_content sub)"

definition fileSnippet :: "ExtractedSubtitles list \<Rightarrow> ExtractedSubtitles \<Rightarrow> jsstring" where
  "fileSnippet subtitles sub =
     str ''### File: '' @ es_fileName sub @ [10] @ snippetContent subtitles sub"

fun joinWith :: "jsstring \<Rightarrow> jsstring list \<Rightarrow> jsstring" where
  "joinWith sep [] = []"
| "joinWith sep [x] = x"
| "joinWith sep (x # y # ys) = x @ sep @ joinWith sep (y # ys)"

definition fileSnippets :: "ExtractedSubtitles list \<Rightarrow> jsstring" where
  "fileSnippets subtitles = joinWith [10, 10] (map (fileSnippet subtitles) subtitles)"

text \<open>
  The number of characters of subtitle text in \<open>fileSnippets\<close>, over all files, and the
  number of characters that the formula gives for one file in exact arithmetic.
\<close>

definition exactAllowedChars :: "nat \<Rightarrow> ExtractedSubtitles \<Rightarrow> nat" where
  "exactAllowedChars totalCount sub =
     nat \<lfloor>(real (length (es_content sub)) / real totalCount) * real MAX_TOTAL_CHARS\<rfloor>"

definition promptSubtitleChars :: "ExtractedSubtitles list \<Rightarrow> nat" where
  "promptSubtitleChars subtitles =
     sum_list (map (\<lambda>sub. length (snippetContent subtitles sub)) subtitles)"

section \<open>Plex naming and the episode copy\<close>

text \<open>
  \<open>String(n)\<close> for a number that holds the integer \<open>n \<ge> 0\<close>: the decimal digits below
  \<open>10^21\<close>, and from there on the exponent notation, \<open>1e+21\<close> for \<open>10^21\<close>. JavaScript
  prints the shortest digits that read back as the same double; these are the digits of
  \<open>n\<close> when \<open>n\<close> is below \<open>2^53\<close> or has at most 15 significant digits, and the
  statements below that depend on the digits are about such \<open>n\<close>.
\<close>

fun decimalDigits :: "nat \<Rightarrow> jsstring" where
  "decimalDigits n = (if n < 10 then [48 + n] else decimalDigits (n div 10) @ [48 + n mod 10])"

declare decimalDigits.simps [simp del]

definition exponentNotation :: "nat \<Rightarrow> jsstring" where
  "exponentNotation n =
     (let digits = decimalDigits n;
          significant = rev (dropWhile (\<lambda>c. c = 48) (rev digits));
          mantissa = (if length significant \<le> 1 then significant
                      else hd significant # 46 # tl significant)
      in mantissa @ str ''e+'' @ decimalDigits (length digits - 1))"

definition String :: "nat \<Rightarrow> jsstring" where
  "String n = (if n < 10 ^ 21 then decimalDigits n else exponentNotation n)"

definition padStart2 :: "jsstring \<Rightarrow> jsstring" where
  "padStart2 s = replicate (2 - length s) 48 @ s"

text \<open>
  The file system under the series root, as far as the copy needs it: the regular files,
  by path, with their contents. Directories exist implicitly, which is what
  \<open>mkdir(seasonDir, {recursive: true})\<close> provides.
\<close>

type_synonym bytes = "nat list"
type_synonym filesystem = "path \<rightharpoonup> bytes"

datatype fs_error = ENOENT path

definition plexFileName :: "EpisodeMatch \<Rightarrow> AnimeSearchResult \<Rightarrow> jsstring" where
  "plexFileName match anime =
     (let ext = extname (em_filePath match);
          showName = sanitizeFileName
            (case english (as_title anime) of Some e \<Rightarrow> e | None \<Rightarrow> romaji (as_title anime));
          episodeNum = padStart2 (String (em_episodeNumber match));
          seasonNum = padStart2 (String (em_seasonNumber match));
          episodeTitle = sanitizeFileName (em_episodeTitle match)
      in if episodeTitle \<noteq> []
         then showName @ str '' - S'' @ seasonNum @ str ''E'' @ episodeNum
                @ str '' - '' @ episodeTitle @ ext
         else showName @ str '' - S'' @ seasonNum @ str ''E'' @ episodeNum @ ext)"

definition renamedRecord ::
  "EpisodeMatch \<Rightarrow> AnimeSearchResult \<Rightarrow> path \<Rightarrow> path \<Rightarrow> RenamedFile" where
  "renamedRecord match anime episodesDir seriesRootDir =
     (let seasonNum = padStart2 (String (em_seasonNumber match));
          newFileName = plexFileName match anime;
          seasonDir = join episodesDir (str ''Season '' @ seasonNum);
          newPath = join seasonDir newFileName;
          originalRelativePath = relative seriesRootDir (em_filePath match)
      in \<lparr> rf_originalPath = em_filePath match,
           rf_originalRelativePath = originalRelativePath,
           rf_newPath = newPath,
           rf_newFileName = newFileName,
           rf_seasonNumber = em_seasonNumber match,
           rf_episodeNumber = em_episodeNumber match \<rparr>)"

text \<open>
  \<open>copyEpisodeToWorkDir\<close>: the record is computed first; a dry run returns it at once; an
  existing destination (\<open>access\<close> succeeds) returns it without copying; otherwise \<open>cp\<close>
  copies the source, and throws when the source does not exist.
\<close>

definition copyEpisodeToWorkDir ::
  "EpisodeMatch \<Rightarrow> AnimeSearchResult \<Rightarrow> path \<Rightarrow> path \<Rightarrow> bool \<Rightarrow> filesystem
     \<Rightarrow> fs_error + (filesystem \<times> RenamedFile)" where
  "copyEpisodeToWorkDir match anime episodesDir seriesRootDir dryRun fs =
     (let r = renamedRecord match anime episodesDir seriesRootDir
      in if dryRun then Inr (fs, r)
         else if rf_newPath r \<in> dom fs then Inr (fs, r)
         else (case fs (em_filePath match) of
                 None \<Rightarrow> Inl (ENOENT (em_filePath match))
               | Some data \<Rightarrow> Inr (fs(rf_newPath r \<mapsto> data), r)))"

text \<open>
  Reading the token back, in the words of the specification. \<open>parseSE\<close> reads
  \<open>S<digits>E<digits>\<close> at the start of a string; \<open>parseSE2\<close> reads exactly two digits
  for each number, as the pattern \<open>S(\d{2})E\d{2}\<close> of \<open>structureToStaging\<close> does.
  \<open>parseAfterShow\<close> applies a parser to what follows \<open><Show> - \<close> in a file name.
\<close>

definition isDigit :: "nat \<Rightarrow> bool" where
  "isDigit c \<longleftrightarrow> 48 \<le> c \<and> c \<le> 57"

definition fromDigits :: "jsstring \<Rightarrow> nat" where
  "fromDigits ds = foldl (\<lambda>a d. 10 * a + (d - 48)) 0 ds"

definition parseSE :: "jsstring \<Rightarrow> (nat \<times> nat) option" where
  "parseSE s =
     (case s of
        [] \<Rightarrow> None
      | c # r1 \<Rightarrow>
          if c \<noteq> 83 then None
          else let ss = takeWhile isDigit r1; r2 = dropWhile isDigit r1
               in (case r2 of
                     [] \<Rightarrow> None
                   | e # r3 \<Rightarrow>
                       if e \<noteq> 69 \<or> ss = [] \<or> takeWhile isDigit r3 = [] then None
                       else Some (fromDigits ss, fromDigits (takeWhile isDigit r3))))"

definition parseSE2 :: "jsstring \<Rightarrow> (nat \<times> nat) option" where
  "parseSE2 s =
     (case s of
        c # s1 # s2 # e # e1 # e2 # rest \<Rightarrow>
          if c = 83 \<and> isDigit s1 \<and> isDigit s2 \<and> e = 69 \<and> isDigit e1 \<and> isDigit e2
          then Some (fromDigits [s1, s2], fromDigits [e1, e2])
          else None
      | _ \<Rightarrow> None)"

definition parseAfterShow ::
  "(jsstring \<Rightarrow> (nat \<times> nat) option) \<Rightarrow> jsstring \<Rightarrow> jsstring \<Rightarrow> (nat \<times> nat) option" where
  "parseAfterShow parser showName fileName =
     (if startsWith fileName (showName @ str '' - '')
      then parser (drop (length showName + 3) fileName)
      else None)"

text \<open>
  Reading the token from the basename alone: the first place of the name at which the
  parser succeeds, as \<open>basename.match(...)\<close> finds it.
\<close>

fun firstToken :: "(jsstring \<Rightarrow> (nat \<times> nat) option) \<Rightarrow> jsstring \<Rightarrow> (nat \<times> nat) option" where
  "firstToken parser [] = None"
| "firstToken parser (c # cs) =
     (case parser (c # cs) of Some r \<Rightarrow> Some r | None \<Rightarrow> firstToken parser cs)"

text \<open>
  The loop of \<open>processFolder\<close> over the matches it copies: each result is pushed to
  \<open>renamedFiles\<close>; a thrown error ends the loop.
\<close>

fun copyMatches ::
  "EpisodeMatch list \<Rightarrow> AnimeSearchResult \<Rightarrow> path \<Rightarrow> path \<Rightarrow> bool
     \<Rightarrow> filesystem \<times> RenamedFile list \<Rightarrow> fs_error + (filesystem \<times> RenamedFile list)" where
  "copyMatches [] anime episodesDir seriesRootDir dryRun (fs, renamedFiles) = Inr (fs, renamedFiles)"
| "copyMatches (match # rest) anime episodesDir seriesRootDir dryRun (fs, renamedFiles) =
     (case copyEpisodeToWorkDir match anime episodesDir seriesRootDir dryRun fs of
        Inl err \<Rightarrow> Inl err
      | Inr (fs', renamed) \<Rightarrow>
          copyMatches rest anime episodesDir seriesRootDir dryRun (fs', renamedFiles @ [renamed]))"

definition showNameOf :: "AnimeSearchResult \<Rightarrow> jsstring" where
  "showNameOf anime =
     sanitizeFileName
       (case english (as_title anime) of Some e \<Rightarrow> e | None \<Rightarrow> romaji (as_title anime))"

definition nameSuffix :: "EpisodeMatch \<Rightarrow> jsstring" where
  "nameSuffix match =
     (if sanitizeFileName (em_episodeTitle match) \<noteq> []
      then str '' - '' @ sanitizeFileName (em_episodeTitle match) @ extname (em_filePath match)
      else extname (em_filePath match))"

section \<open>Episode detection by file-size clustering\<close>

text \<open>
  A directory as \<open>readdir(dir, {withFileTypes: true})\<close> and \<open>stat\<close> show it: its entries
  in order, each a regular file, a directory with its entries, or something else (a link,
  a socket), for which both \<open>isDirectory()\<close> and \<open>isFile()\<close> are false. Each node
  carries the size that \<open>stat\<close> reports for it.
\<close>

datatype fsnode = File nat | Dir nat "(jsstring \<times> fsnode) list" | Other nat

definition VIDEO_EXTENSIONS :: "jsstring set" where
  "VIDEO_EXTENSIONS =
     {str ''.mkv'', str ''.mp4'', str ''.avi'', str ''.webm'', str ''.m4v'', str ''.mov'',
      str ''.wmv'', str ''.flv''}"

fun listVideoFilesRecursive :: "path \<Rightarrow> (jsstring \<times> fsnode) list \<Rightarrow> SourceFileInfo list" where
  "listVideoFilesRecursive directory [] = []"
| "listVideoFilesRecursive directory ((name, node) # entries) =
     (if startsWith name (str ''_'') then []
      else (case node of
              Dir dirSize sub \<Rightarrow> listVideoFilesRecursive (join directory name) sub
            | File fileSize \<Rightarrow>
                if toLowerCase (extnameOf name) \<in> VIDEO_EXTENSIONS
                then [\<lparr> sf_path = join directory name, sf_relativePath = [name],
                        sf_name = name, sf_size = fileSize \<rparr>]
                else []
            | Other otherSize \<Rightarrow> []))
     @ listVideoFilesRecursive directory entries"

text \<open>
  The video files under a folder in the words of the specification: the walk leaves out
  only what lies in subdirectories whose name begins with an underscore.
\<close>

fun videoFilesUnder :: "path \<Rightarrow> (jsstring \<times> fsnode) list \<Rightarrow> SourceFileInfo list" where
  "videoFilesUnder directory [] = []"
| "videoFilesUnder directory ((name, node) # entries) =
     (case node of
        Dir dirSize sub \<Rightarrow>
          if startsWith name (str ''_'') then [] else videoFilesUnder (join directory name) sub
      | File fileSize \<Rightarrow>
          if toLowerCase (extnameOf name) \<in> VIDEO_EXTENSIONS
          then [\<lparr> sf_path = join directory name, sf_relativePath = [name],
                  sf_name = name, sf_size = fileSize \<rparr>]
          else []
      | Other otherSize \<Rightarrow> [])
     @ videoFilesUnder directory entries"

datatype Confidence = high | medium | low

text \<open>\<open>Math.min()\<close> and \<open>Math.max()\<close> of no arguments are the infinities.\<close>

datatype jsnumber = Num real | PosInfinity | NegInfinity

definition Math_min :: "real list \<Rightarrow> jsnumber" where
  "Math_min xs = (if xs = [] then PosInfinity else Num (Min (set xs)))"

definition Math_max :: "real list \<Rightarrow> jsnumber" where
  "Math_max xs = (if xs = [] then NegInfinity else Num (Max (set xs)))"

record EpisodeDetectionResult =
  episodes :: "SourceFileInfo list"
  nonEpisodes :: "SourceFileInfo list"
  confidence :: Confidence
  clusterMedianSize :: real
  clusterSizeRange :: "jsnumber \<times> jsnumber"

text \<open>
  \<open>Math.max(50 * 1024 * 1024, range / 20)\<close> and
  \<open>Math.floor((file.size - minSize) / binWidth)\<close>: both quotients are rounded to doubles;
  the differences of sizes are exact.
\<close>

definition binWidthOf :: "real \<Rightarrow> real" where
  "binWidthOf sizeRange = max (50 * 1024 * 1024) (fdiv sizeRange 20)"

definition binIndex :: "real \<Rightarrow> real \<Rightarrow> SourceFileInfo \<Rightarrow> int" where
  "binIndex minSize binWidth file = \<lfloor>fdiv (real (sf_size file) - minSize) binWidth\<rfloor>"

text \<open>
  \<open>bins\<close> is a \<open>Map\<close>, which keeps its keys in insertion order: an association list.
  \<open>binsPush\<close> is \<open>if (!bins.has(i)) bins.set(i, []); bins.get(i).push(file)\<close>.
\<close>

fun binsPush ::
  "int \<Rightarrow> SourceFileInfo \<Rightarrow> (int \<times> SourceFileInfo list) list \<Rightarrow> (int \<times> SourceFileInfo list) list" where
  "binsPush i file [] = [(i, [file])]"
| "binsPush i file ((j, binFiles) # bins) =
     (if i = j then (j, binFiles @ [file]) # bins else (j, binFiles) # binsPush i file bins)"

definition buildBins ::
  "real \<Rightarrow> real \<Rightarrow> SourceFileInfo list \<Rightarrow> (int \<times> SourceFileInfo list) list" where
  "buildBins minSize binWidth sortedFiles =
     foldl (\<lambda>bins file. binsPush (binIndex minSize binWidth file) file bins) [] sortedFiles"

text \<open>The loop over \<open>bins.values()\<close>: a later bin replaces the largest only when strictly longer.\<close>

definition largestBinOf :: "(int \<times> SourceFileInfo list) list \<Rightarrow> SourceFileInfo list" where
  "largestBinOf bins =
     foldl (\<lambda>largestBin binFiles.
              if length binFiles > length largestBin then binFiles else largestBin)
       [] (map snd bins)"

text \<open>
  The median of the sorted cluster sizes. The largest bin of one or more files is never
  empty (\<open>largestBin_first_max\<close> below), so the first branch, where JavaScript would
  compute \<open>NaN\<close>, is not reached from \<open>clusterBySize\<close>.
\<close>

definition medianOf :: "real list \<Rightarrow> real" where
  "medianOf clusterSizes =
     (let medianIdx = length clusterSizes div 2
      in if clusterSizes = [] then 0
         else if length clusterSizes mod 2 = 0
         then fdiv (fadd (clusterSizes ! (medianIdx - 1)) (clusterSizes ! medianIdx)) 2
         else clusterSizes ! medianIdx)"

definition inWindow :: "real \<Rightarrow> SourceFileInfo \<Rightarrow> bool" where
  "inWindow clusterMedian file \<longleftrightarrow>
     real (sf_size file) \<ge> clusterMedian * 0.8 \<and> real (sf_size file) \<le> clusterMedian * 1.2"

definition sortedBySize :: "SourceFileInfo list \<Rightarrow> SourceFileInfo list" where
  "sortedBySize videoFiles = sort_key sf_size videoFiles"

definition clusterMedianOf :: "SourceFileInfo list \<Rightarrow> real" where
  "clusterMedianOf videoFiles =
     (let sortedFiles = sortedBySize videoFiles;
          sizes = map (\<lambda>f. real (sf_size f)) sortedFiles;
          minSize = sizes ! 0;
          maxSize = sizes ! (length sizes - 1);
          sizeRange = maxSize - minSize;
          binWidth = binWidthOf sizeRange;
          bins = buildBins minSize binWidth sortedFiles;
          largestBin = largestBinOf bins;
          clusterSizes = sort (map (\<lambda>f. real (sf_size f)) largestBin)
      in medianOf clusterSizes)"

text \<open>\<open>detectEpisodeFiles\<close> after the listing: the three cases on the number of files.\<close>

definition clusterBySize :: "SourceFileInfo list \<Rightarrow> EpisodeDetectionResult" where
  "clusterBySize videoFiles =
     (if length videoFiles = 0
      then \<lparr> episodes = [], nonEpisodes = [], confidence = low, clusterMedianSize = 0,
             clusterSizeRange = (Num 0, Num 0) \<rparr>
      else if length videoFiles \<le> 2
      then \<lparr> episodes = videoFiles, nonEpisodes = [],
             confidence = (if length videoFiles = 1 then medium else low),
             clusterMedianSize = real (sf_size (videoFiles ! 0)),
             clusterSizeRange = (Math_min (map (\<lambda>f. real (sf_size f)) videoFiles),
                                 Math_max (map (\<lambda>f. real (sf_size f)) videoFiles)) \<rparr>
      else
        let clusterMedian = clusterMedianOf videoFiles;
            (episodes, nonEpisodes) = partition (inWindow clusterMedian) videoFiles;
            episodeRatio = real (length episodes) / real (length videoFiles);
            confidence = (if length episodes \<ge> 6 \<and> episodeRatio > 0.6 then high
                          else if length episodes \<ge> 3 then medium else low)
        in \<lparr> episodes = episodes, nonEpisodes = nonEpisodes, confidence = confidence,
             clusterMedianSize = clusterMedian,
             clusterSizeRange = (Math_min (map (\<lambda>f. real (sf_size f)) episodes),
                                 Math_max (map (\<lambda>f. real (sf_size f)) episodes)) \<rparr>)"

definition detectEpisodeFiles :: "path \<Rightarrow> (jsstring \<times> fsnode) list \<Rightarrow> EpisodeDetectionResult" where
  "detectEpisodeFiles folderPath entries =
     clusterBySize (listVideoFilesRecursive folderPath entries)"

text \<open>
  The histogram in the words of the specification, read in exact arithmetic: the bin
  width from the smallest and largest size, the bin of a file, the files of a bin, and the
  median of a list of numbers.
\<close>

definition sizesOf :: "SourceFileInfo list \<Rightarrow> real set" where
  "sizesOf videoFiles = (\<lambda>f. real (sf_size f)) ` set videoFiles"

definition specBinWidth :: "SourceFileInfo list \<Rightarrow> real" where
  "specBinWidth videoFiles =
     max (50 * 1024 * 1024) ((Max (sizesOf videoFiles) - Min (sizesOf videoFiles)) / 20)"

definition specBin :: "SourceFileInfo list \<Rightarrow> SourceFileInfo \<Rightarrow> int" where
  "specBin videoFiles f =
     \<lfloor>(real (sf_size f) - Min (sizesOf videoFiles)) / specBinWidth videoFiles\<rfloor>"

definition specBinFiles :: "SourceFileInfo list \<Rightarrow> int \<Rightarrow> SourceFileInfo list" where
  "specBinFiles videoFiles k = filter (\<lambda>f. specBin videoFiles f = k) videoFiles"

definition specMedian :: "real list \<Rightarrow> real" where
  "specMedian xs =
     (let ss = sort xs; n = length ss
      in if even n then (ss ! (n div 2 - 1) + ss ! (n div 2)) / 2 else ss ! (n div 2))"

text \<open>The same histogram with the two quotients and the mean taken in double arithmetic.\<close>

definition doubleBinWidth :: "SourceFileInfo list \<Rightarrow> real" where
  "doubleBinWidth videoFiles =
     max (50 * 1024 * 1024) (fdiv (Max (sizesOf videoFiles) - Min (sizesOf videoFiles)) 20)"

definition doubleBin :: "SourceFileInfo list \<Rightarrow> SourceFileInfo \<Rightarrow> int" where
  "doubleBin videoFiles f =
     \<lfloor>fdiv (real (sf_size f) - Min (sizesOf videoFiles)) (doubleBinWidth videoFiles)\<rfloor>"

definition doubleBinFiles :: "SourceFileInfo list \<Rightarrow> int \<Rightarrow> SourceFileInfo list" where
  "doubleBinFiles videoFiles k = filter (\<lambda>f. doubleBin videoFiles f = k) videoFiles"

definition doubleMedian :: "real list \<Rightarrow> real" where
  "doubleMedian xs =
     (let ss = sort xs; n = length ss
      in if even n then fdiv (fadd (ss ! (n div 2 - 1)) (ss ! (n div 2))) 2 else ss ! (n div 2))"

section \<open>Output integrity verification\<close>

fun listAllFilesRecursive :: "path \<Rightarrow> (jsstring \<times> fsnode) list \<Rightarrow> path list" where
  "listAllFilesRecursive directory [] = []"
| "listAllFilesRecursive directory ((name, node) # entries) =
     (case node of
        Dir dirSize sub \<Rightarrow> listAllFilesRecursive (join directory name) sub
      | File fileSize \<Rightarrow> [join directory name]
      | Other otherSize \<Rightarrow> [])
     @ listAllFilesRecursive directory entries"

text \<open>
  \<open>stat\<close> of a path below a directory whose entries are given: the path is resolved
  component by component, and the call throws (\<open>None\<close>) when a component is missing or is
  looked up in something that is not a directory.
\<close>

definition statSize :: "fsnode \<Rightarrow> nat" where
  "statSize node = (case node of File s \<Rightarrow> s | Dir s sub \<Rightarrow> s | Other s \<Rightarrow> s)"

fun lookupIn :: "(jsstring \<times> fsnode) list \<Rightarrow> path \<Rightarrow> fsnode option" where
  "lookupIn entries [] = None"
| "lookupIn entries [name] = map_of entries name"
| "lookupIn entries (name # rest) =
     (case map_of entries name of
        Some (Dir dirSize sub) \<Rightarrow> lookupIn sub rest
      | _ \<Rightarrow> None)"

definition isPrefixOf :: "path \<Rightarrow> path \<Rightarrow> bool" where
  "isPrefixOf dir p \<longleftrightarrow> take (length dir) p = dir"

definition stat :: "path \<Rightarrow> (jsstring \<times> fsnode) list \<Rightarrow> path \<Rightarrow> nat option" where
  "stat dir entries p =
     (if isPrefixOf dir p then map_option statSize (lookupIn entries (drop (length dir) p))
      else None)"

text \<open>\<open>join(outputDir, rel)\<close> with a relative path of several components.\<close>

definition joinPath :: "path \<Rightarrow> path \<Rightarrow> path" where
  "joinPath dir rel = dir @ rel"

record VerifyResult =
  verified :: bool
  missingFiles :: "path list"

text \<open>
  The body of the loop of \<open>verifyOutputIntegrity\<close>: the relative path is pushed to
  \<open>missingFiles\<close> when the sizes differ or when one of the two \<open>stat\<close> calls throws.
\<close>

definition verifyStep ::
  "path \<Rightarrow> (jsstring \<times> fsnode) list \<Rightarrow> path \<Rightarrow> (jsstring \<times> fsnode) list
     \<Rightarrow> path list \<Rightarrow> path \<Rightarrow> path list" where
  "verifyStep sourceDir sourceEntries outputDir outputEntries missing srcFile =
     (let rel = relative sourceDir srcFile;
          destFile = joinPath outputDir rel
      in case stat sourceDir sourceEntries srcFile of
           None \<Rightarrow> missing @ [rel]
         | Some srcSize \<Rightarrow>
             (case stat outputDir outputEntries destFile of
                None \<Rightarrow> missing @ [rel]
              | Some destSize \<Rightarrow> if srcSize \<noteq> destSize then missing @ [rel] else missing))"

definition verifyOutputIntegrity ::
  "path \<Rightarrow> (jsstring \<times> fsnode) list \<Rightarrow> path \<Rightarrow> (jsstring \<times> fsnode) list \<Rightarrow> VerifyResult" where
  "verifyOutputIntegrity sourceDir sourceEntries outputDir outputEntries =
     (let sourceFiles = listAllFilesRecursive sourceDir sourceEntries;
          missing = foldl (verifyStep sourceDir sourceEntries outputDir outputEntries) [] sourceFiles
      in \<lparr> verified = (length missing = 0), missingFiles = missing \<rparr>)"

text \<open>
  The sum of the file sizes over the recursive walk of a directory, each size read by
  \<open>stat\<close> as \<open>walkDir\<close> does. For a directory with distinct entry names this is the
  sum of the sizes of its regular files (\<open>totalSize_fileSizes\<close> below).
\<close>

definition totalSize :: "path \<Rightarrow> (jsstring \<times> fsnode) list \<Rightarrow> nat" where
  "totalSize dir entries =
     sum_list (map (\<lambda>p. case stat dir entries p of Some s \<Rightarrow> s | None \<Rightarrow> 0)
                 (listAllFilesRecursive dir entries))"

section \<open>The disc coordinator's review loop\<close>

record ReviewItem =
  ri_id :: jsstring
  ri_fileName :: jsstring
  ri_filePath :: path
  ri_subtitleSnippet :: jsstring
  ri_suggestedSeasonNumber :: nat
  ri_suggestedEpisodeNumber :: nat
  ri_suggestedEpisodeTitle :: jsstring
  ri_confidence :: real
  ri_reasoning :: jsstring
  ri_availableEpisodes :: "AnimeEpisode list"
  ri_availableSeasons :: "SeasonInfo list"

record ReviewDecision =
  rd_reviewItemId :: jsstring
  rd_approved :: bool
  rd_correctedSeasonNumber :: "nat option"
  rd_correctedEpisodeNumber :: "nat option"

record ProcessFolderInput =
  pf_folderPath :: path
  pf_folderName :: jsstring
  pf_seriesRootDir :: path
  pf_seriesMetadata :: SeriesMetadata
  pf_dryRun :: bool
  pf_confidenceThreshold :: real

text \<open>
  The part of the state of \<open>processFolder\<close> that the review loop reads and writes, with
  the files under the series root.
\<close>

record ReviewState =
  pendingReviews :: "ReviewItem list"
  resolvedReviews :: "jsstring \<rightharpoonup> ReviewDecision"
  renamedFiles :: "RenamedFile list"
  episodesCopied :: nat
  currentFile :: "jsstring option"
  files :: filesystem

text \<open>\<open>animeForRename\<close>: the first season's entry, or \<open>null\<close> when there is no season.\<close>

definition animeForRename :: "SeriesMetadata \<Rightarrow> AnimeSearchResult option" where
  "animeForRename meta =
     (case seasons meta of
        [] \<Rightarrow> None
      | s0 # _ \<Rightarrow>
          Some \<lparr> as_anilistId = si_anilistId s0,
                 as_title = \<lparr> romaji = si_romaji s0, english = si_english s0, native = None \<rparr>,
                 as_episodes = Some (si_episodeCount s0),
                 as_format = str ''TV'', as_status = str ''FINISHED'' \<rparr>)"

text \<open>The handler of the \<open>reviewDecision\<close> signal.\<close>

definition reviewDecisionSignal :: "ReviewDecision \<Rightarrow> ReviewState \<Rightarrow> ReviewState" where
  "reviewDecisionSignal decision st =
     st\<lparr> resolvedReviews := (resolvedReviews st)(rd_reviewItemId decision \<mapsto> decision) \<rparr>"

text \<open>The \<open>pendingReviews\<close> field of the answer to the \<open>getProgress\<close> query.\<close>

definition queryPendingReviews :: "ReviewState \<Rightarrow> ReviewItem list" where
  "queryPendingReviews st =
     filter (\<lambda>r. case resolvedReviews st (ri_id r) of
                    None \<Rightarrow> True
                  | Some decision \<Rightarrow> \<not> rd_approved decision)
       (pendingReviews st)"

text \<open>The review item that step 6 pushes for a low-confidence match.\<close>

definition reviewItemFor ::
  "ProcessFolderInput \<Rightarrow> ExtractedSubtitles list \<Rightarrow> EpisodeMatch \<Rightarrow> ReviewItem" where
  "reviewItemFor input extractedSubtitles match =
     \<lparr> ri_id = pf_folderName input @ str ''-'' @ em_fileName match,
       ri_fileName = em_fileName match,
       ri_filePath = em_filePath match,
       ri_subtitleSnippet =
         (case find (\<lambda>s. es_fileName s = em_fileName match) extractedSubtitles of
            None \<Rightarrow> []
          | Some subtitle \<Rightarrow> take 500 (es_content subtitle)),
       ri_suggestedSeasonNumber = em_seasonNumber match,
       ri_suggestedEpisodeNumber = em_episodeNumber match,
       ri_suggestedEpisodeTitle = em_episodeTitle match,
       ri_confidence = em_confidence match,
       ri_reasoning = em_reasoning match,
       ri_availableEpisodes = concat (map si_episodes (seasons (pf_seriesMetadata input))),
       ri_availableSeasons = seasons (pf_seriesMetadata input) \<rparr>"

text \<open>
  \<open>season?.episodes.find(e => e.number === episodeNumber)?.title ?? `Episode N`\<close>: the
  fallback applies when the season is unknown, the episode is unknown, or its title is
  \<open>null\<close>.
\<close>

definition episodeTitleFor :: "SeriesMetadata \<Rightarrow> nat \<Rightarrow> nat \<Rightarrow> jsstring" where
  "episodeTitleFor meta seasonNumber episodeNumber =
     (case find (\<lambda>s. si_seasonNumber s = seasonNumber) (seasons meta) of
        None \<Rightarrow> str ''Episode '' @ String episodeNumber
      | Some season \<Rightarrow>
          (case find (\<lambda>e. ae_number e = episodeNumber) (si_episodes season) of
             None \<Rightarrow> str ''Episode '' @ String episodeNumber
           | Some episode \<Rightarrow>
               (case ae_title episode of
                  None \<Rightarrow> str ''Episode '' @ String episodeNumber
                | Some title \<Rightarrow> title)))"

definition correctedMatch :: "SeriesMetadata \<Rightarrow> ReviewItem \<Rightarrow> ReviewDecision \<Rightarrow> EpisodeMatch" where
  "correctedMatch meta review decision =
     (let seasonNumber = (case rd_correctedSeasonNumber decision of
                            Some s \<Rightarrow> s | None \<Rightarrow> ri_suggestedSeasonNumber review);
          episodeNumber = (case rd_correctedEpisodeNumber decision of
                             Some e \<Rightarrow> e | None \<Rightarrow> ri_suggestedEpisodeNumber review);
          episodeTitle = episodeTitleFor meta seasonNumber episodeNumber
      in \<lparr> em_fileName = ri_fileName review,
           em_filePath = ri_filePath review,
           em_seasonNumber = seasonNumber,
           em_episodeNumber = episodeNumber,
           em_episodeTitle = episodeTitle,
           em_confidence = 1.0,
           em_reasoning = str ''User-approved'' \<rparr>)"

text \<open>
  One pass through the body of \<open>while (true)\<close> for a review: the workflow stays suspended
  in \<open>condition\<close> while no decision is stored for the review's id; an approved decision
  (with a show to name the file after) is copied and the loop for this review ends; without
  a show the loop for this review ends at once; any other decision is deleted and the loop
  goes back to \<open>condition\<close>.
\<close>

datatype IterationResult =
    Suspended
  | Settled ReviewState
  | Retry ReviewState
  | Thrown fs_error

definition reviewIteration :: "ProcessFolderInput \<Rightarrow> ReviewItem \<Rightarrow> ReviewState \<Rightarrow> IterationResult" where
  "reviewIteration input review st =
     (case resolvedReviews st (ri_id review) of
        None \<Rightarrow> Suspended
      | Some decision \<Rightarrow>
          (case animeForRename (pf_seriesMetadata input) of
             None \<Rightarrow> Settled st
           | Some anime \<Rightarrow>
               if rd_approved decision
               then (case copyEpisodeToWorkDir
                            (correctedMatch (pf_seriesMetadata input) review decision) anime
                            (join (pf_seriesRootDir input) (str ''_episodes''))
                            (pf_seriesRootDir input) (pf_dryRun input) (files st) of
                       Inl err \<Rightarrow> Thrown err
                     | Inr (fs', renamed) \<Rightarrow>
                         Settled (st\<lparr> renamedFiles := renamedFiles st @ [renamed],
                                      episodesCopied := episodesCopied st + 1,
                                      currentFile := None,
                                      files := fs' \<rparr>))
               else Retry (st\<lparr> resolvedReviews := (resolvedReviews st)(ri_id review := None) \<rparr>)))"

text \<open>
  The \<open>for\<close> loop as far as it can run without a new signal: it returns the reviews that
  are still to be settled (empty when the loop is over) and the state, or the error thrown
  by a copy.
\<close>

fun reviewLoop ::
  "ProcessFolderInput \<Rightarrow> ReviewItem list \<Rightarrow> ReviewState
     \<Rightarrow> fs_error + (ReviewItem list \<times> ReviewState)" where
  "reviewLoop input [] st = Inr ([], st)"
| "reviewLoop input (review # rest) st =
     (case reviewIteration input review st of
        Suspended \<Rightarrow> Inr (review # rest, st)
      | Retry st' \<Rightarrow> Inr (review # rest, st')
      | Settled st' \<Rightarrow> reviewLoop input rest st'
      | Thrown err \<Rightarrow> Inl err)"

section \<open>The library coordinator: awaiting finalize and finalizing\<close>

datatype WorkflowStage =
    copying | fetching_metadata | processing_folders | structuring | awaiting_finalize
  | finalizing | completed | failed | canceled

datatype FolderStatus =
    folder_pending | folder_scanning | folder_extracting | folder_matching | folder_renaming
  | folder_awaiting_detection_review | folder_awaiting_review | folder_completed | folder_failed

record FolderResult =
  fr_folderName :: jsstring
  fr_folderPath :: path
  fr_status :: FolderStatus
  fr_episodesFound :: nat
  fr_episodesRenamed :: nat
  fr_episodesPendingReview :: nat
  fr_error :: "jsstring option"

record FinalizeDecision =
  fd_approved :: bool

record OrganizeLibraryResult =
  olr_totalFolders :: nat
  olr_completed :: nat
  olr_failed :: nat
  olr_pendingReview :: nat
  olr_folders :: "FolderResult list"
  olr_extraFiles :: "path list"

text \<open>
  The mutable state of \<open>organizeLibrary\<close> that the finalize gate reads and writes, and the
  files under the output root (path and size).
\<close>

record LibraryState =
  workflowStage :: WorkflowStage
  canFinalize :: bool
  awaitingFinalApproval :: bool
  finalized :: bool
  rejected :: bool
  outputFiles :: "path \<rightharpoonup> nat"

text \<open>The state when the workflow starts, with what the output root already holds.\<close>

definition initialLibraryState :: "(path \<rightharpoonup> nat) \<Rightarrow> LibraryState" where
  "initialLibraryState out =
     \<lparr> workflowStage = copying, canFinalize = False, awaitingFinalApproval = False,
       finalized = False, rejected = False, outputFiles = out \<rparr>"

text \<open>The handler of the \<open>finalize\<close> signal, set before stage 1.\<close>

definition finalizeSignal :: "FinalizeDecision \<Rightarrow> LibraryState \<Rightarrow> LibraryState" where
  "finalizeSignal decision st =
     (if fd_approved decision \<and> canFinalize st then st\<lparr> finalized := True \<rparr>
      else if \<not> fd_approved decision then st\<lparr> rejected := True \<rparr>
      else st)"

text \<open>
  Signals reach the workflow in batches: the handler runs for each signal of a batch, then
  the workflow's \<open>condition\<close> is looked at again.
\<close>

definition deliver :: "FinalizeDecision list \<Rightarrow> LibraryState \<Rightarrow> LibraryState" where
  "deliver batch st = foldl (\<lambda>s decision. finalizeSignal decision s) st batch"

text \<open>
  \<open>await condition(() => finalized || rejected)\<close> against the batches still to come:
  \<open>None\<close> when the condition never becomes true, so that the workflow stays blocked.
\<close>

fun awaitCondition :: "FinalizeDecision list list \<Rightarrow> LibraryState \<Rightarrow> LibraryState option" where
  "awaitCondition [] st = (if finalized st \<or> rejected st then Some st else None)"
| "awaitCondition (batch # batches) st =
     (if finalized st \<or> rejected st then Some st
      else awaitCondition batches (deliver batch st))"

text \<open>
  The copy of stage 6: for every enumerated staging file the loop starts a copy to the same
  relative path under the output directory, at most four at a time. \<open>copyToOutput\<close> is
  the output root once all of these copies have finished. The loop keeps the running copies
  in a map under the file's name: it waits for all of them when the names of the staging
  files are pairwise distinct, and with a repeated name it can go on to the verification
  while a copy of that name is still running.
\<close>

definition copyToOutput ::
  "path \<Rightarrow> path \<Rightarrow> SourceFileInfo list \<Rightarrow> (path \<rightharpoonup> nat) \<Rightarrow> (path \<rightharpoonup> nat)" where
  "copyToOutput stagingShowDir outputDir stagingFiles out =
     foldl (\<lambda>acc file.
              acc(joinPath outputDir (relative stagingShowDir (sf_path file)) \<mapsto> sf_size file))
       out stagingFiles"

definition libraryResult :: "FolderResult list \<Rightarrow> path list \<Rightarrow> OrganizeLibraryResult" where
  "libraryResult folderResults allExtraFiles =
     \<lparr> olr_totalFolders = length folderResults,
       olr_completed = length (filter (\<lambda>r. fr_status r = folder_completed) folderResults),
       olr_failed = length (filter (\<lambda>r. fr_status r = folder_failed) folderResults),
       olr_pendingReview = 0,
       olr_folders = folderResults,
       olr_extraFiles = allExtraFiles \<rparr>"

text \<open>
  \<open>organizeLibrary\<close> from stage 5 to its return, started in the state that stages 1 to 4
  leave. \<open>verifyOk\<close> is what \<open>verifyOutputIntegrity\<close> answers; \<open>batches\<close> are the signals
  that arrive once the workflow waits. The result is \<open>None\<close> when the workflow never
  returns.
\<close>

definition organizeLibraryFromStage5 ::
  "FolderResult list \<Rightarrow> path list \<Rightarrow> path list \<Rightarrow> path \<Rightarrow> path \<Rightarrow> SourceFileInfo list
     \<Rightarrow> bool \<Rightarrow> bool \<Rightarrow> FinalizeDecision list list \<Rightarrow> LibraryState
     \<Rightarrow> (LibraryState \<times> OrganizeLibraryResult) option" where
  "organizeLibraryFromStage5 folderResults allRenamedFilePaths allExtraFiles stagingShowDir
       outputDir stagingFiles dryRunFlag verifyOk batches st =
     (let totalFailed = length (filter (\<lambda>r. fr_status r = folder_failed) folderResults);
          can = (totalFailed = 0 \<and> length allRenamedFilePaths > 0);
          st5 = st\<lparr> canFinalize := can, awaitingFinalApproval := can,
                    workflowStage := awaiting_finalize \<rparr>;
          result = libraryResult folderResults allExtraFiles
      in case (if can then awaitCondition batches st5 else Some st5) of
           None \<Rightarrow> None
         | Some waited \<Rightarrow>
             if rejected waited then Some (waited\<lparr> workflowStage := failed \<rparr>, result)
             else
               let st6 = waited\<lparr> workflowStage := finalizing \<rparr>;
                   copied = (if \<not> dryRunFlag
                             then st6\<lparr> outputFiles :=
                                      copyToOutput stagingShowDir outputDir stagingFiles
                                        (outputFiles st6) \<rparr>
                             else st6)
               in if \<not> dryRunFlag \<and> \<not> verifyOk
                  then Some (copied\<lparr> workflowStage := failed \<rparr>, result)
                  else Some (copied\<lparr> workflowStage := completed \<rparr>, result))"

text \<open>The state that stages 1 to 4 leave when the given signals arrived during them.\<close>

definition stateBeforeStage5 :: "FinalizeDecision list \<Rightarrow> (path \<rightharpoonup> nat) \<Rightarrow> LibraryState" where
  "stateBeforeStage5 early out =
     (deliver early (initialLibraryState out))\<lparr> workflowStage := structuring \<rparr>"

section \<open>Folders as a file system has them\<close>

text \<open>No regular file outside the underscore directories has a name that begins with an underscore.\<close>

fun noUnderscoreFiles :: "(jsstring \<times> fsnode) list \<Rightarrow> bool" where
  "noUnderscoreFiles [] = True"
| "noUnderscoreFiles ((name, node) # entries) =
     ((case node of
         Dir dirSize sub \<Rightarrow> startsWith name (str ''_'') \<or> noUnderscoreFiles sub
       | File fileSize \<Rightarrow> \<not> startsWith name (str ''_'')
       | Other otherSize \<Rightarrow> True)
      \<and> noUnderscoreFiles entries)"

text \<open>
  The sizes of the regular files of a tree, and trees in which the names within each
  directory are distinct, as they are in a file system.
\<close>

fun fileSizes :: "(jsstring \<times> fsnode) list \<Rightarrow> nat" where
  "fileSizes [] = 0"
| "fileSizes ((name, node) # entries) =
     (case node of File s \<Rightarrow> s | Dir dirSize sub \<Rightarrow> fileSizes sub | Other otherSize \<Rightarrow> 0)
     + fileSizes entries"

fun distinctNames :: "(jsstring \<times> fsnode) list \<Rightarrow> bool" where
  "distinctNames [] = True"
| "distinctNames ((name, node) # entries) =
     (name \<notin> fst ` set entries
      \<and> (case node of Dir dirSize sub \<Rightarrow> distinctNames sub | _ \<Rightarrow> True)
      \<and> distinctNames entries)"

fun relativeFiles :: "(jsstring \<times> fsnode) list \<Rightarrow> path list" where
  "relativeFiles [] = []"
| "relativeFiles ((name, node) # entries) =
     (case node of
        Dir dirSize sub \<Rightarrow> map (\<lambda>r. name # r) (relativeFiles sub)
      | File fileSize \<Rightarrow> [[name]]
      | Other otherSize \<Rightarrow> [])
     @ relativeFiles entries"

section \<open>Concrete inputs\<close>

text \<open>
  Folders, subtitle files, matches, reviews and folder results on which the functions are
  evaluated below.
\<close>

definition videoFile :: "jsstring \<Rightarrow> nat \<Rightarrow> SourceFileInfo" where
  "videoFile name fileSize =
     \<lparr> sf_path = [str ''disc'', name], sf_relativePath = [name], sf_name = name,
       sf_size = fileSize \<rparr>"



definition discTree5 :: "(jsstring \<times> fsnode) list" where
  "discTree5 =
     [(str ''e3.mkv'', File 2000000000), (str ''e1.mkv'', File 1000000000),
      (str ''menu.mkv'', File 3000000000), (str ''e2.mkv'', File 1000000010),
      (str ''e4.mkv'', File 2000000010)]"

definition files5 :: "SourceFileInfo list" where
  "files5 =
     [videoFile (str ''e3.mkv'') 2000000000, videoFile (str ''e1.mkv'') 1000000000,
      videoFile (str ''menu.mkv'') 3000000000, videoFile (str ''e2.mkv'') 1000000010,
      videoFile (str ''e4.mkv'') 2000000010]"

definition discTree4 :: "(jsstring \<times> fsnode) list" where
  "discTree4 =
     [(str ''intro.mkv'', File 1000), (str ''e1.mkv'', File 1286288991),
      (str ''e2.mkv'', File 1286289991), (str ''film.mkv'', File 1715052988)]"

definition files4 :: "SourceFileInfo list" where
  "files4 =
     [videoFile (str ''intro.mkv'') 1000, videoFile (str ''e1.mkv'') 1286288991,
      videoFile (str ''e2.mkv'') 1286289991, videoFile (str ''film.mkv'') 1715052988]"

definition discTreeU :: "(jsstring \<times> fsnode) list" where
  "discTreeU = [(str ''ep1.mkv'', File 1000), (str ''_op.mkv'', File 700)]"

definition subA :: ExtractedSubtitles where
  "subA = \<lparr> es_filePath = [str ''d'', str ''a.mkv''], es_fileName = str ''a.mkv'',
            es_content = replicate 400000 97, es_source = embedded, es_language = None \<rparr>"

definition subB :: ExtractedSubtitles where
  "subB = \<lparr> es_filePath = [str ''d'', str ''b.mkv''], es_fileName = str ''b.mkv'',
            es_content = replicate 200000 98, es_source = external, es_language = None \<rparr>"

definition subC :: ExtractedSubtitles where
  "subC = \<lparr> es_filePath = [str ''d'', str ''c.mkv''], es_fileName = str ''c.mkv'',
            es_content = replicate 256291 99, es_source = embedded, es_language = None \<rparr>"

definition subD :: ExtractedSubtitles where
  "subD = \<lparr> es_filePath = [str ''d'', str ''d.mkv''], es_fileName = str ''d.mkv'',
            es_content = replicate 243789 100, es_source = embedded, es_language = None \<rparr>"

definition animeX :: AnimeSearchResult where
  "animeX = \<lparr> as_anilistId = 1,
              as_title = \<lparr> romaji = str ''Sho: X'', english = None, native = None \<rparr>,
              as_episodes = Some 12, as_format = str ''TV'', as_status = str ''FINISHED'' \<rparr>"

definition animeT :: AnimeSearchResult where
  "animeT = animeX \<lparr> as_title := (as_title animeX) \<lparr> english := Some (str ''A - S09E09'') \<rparr> \<rparr>"

definition matchX :: "nat \<Rightarrow> nat \<Rightarrow> EpisodeMatch" where
  "matchX s e = \<lparr> em_fileName = str ''a.mkv'', em_filePath = [str ''root'', str ''d1'', str ''a.mkv''],
                  em_seasonNumber = s, em_episodeNumber = e, em_episodeTitle = str ''T?'',
                  em_confidence = 0.9, em_reasoning = [] \<rparr>"

definition episodesDirX :: path where
  "episodesDirX = [str ''root'', str ''_episodes'']"

definition fsX :: filesystem where
  "fsX = [[str ''root'', str ''d1'', str ''a.mkv''] \<mapsto> [1, 2, 3]]"

definition destX :: path where
  "destX = [str ''root'', str ''_episodes'', str ''Season 02'', str ''Sho X - S02E05 - T.mkv'']"

definition stagingX :: "(jsstring \<times> fsnode) list" where
  "stagingX = [(str ''Season 01'', Dir 4096 [(str ''e1.mkv'', File 10)])]"

definition outputX :: "(jsstring \<times> fsnode) list" where
  "outputX =
     [(str ''Season 01'', Dir 4096 [(str ''e0.mkv'', File 5), (str ''e1.mkv'', File 10)])]"

definition metaX :: SeriesMetadata where
  "metaX =
     \<lparr> seriesName = str ''Sho X'',
       seasons =
         [\<lparr> si_seasonNumber = 1, si_anilistId = 7, si_romaji = str ''Sho X'',
             si_english = None, si_episodeCount = 2,
             si_episodes =
               [\<lparr> ae_number = 1, ae_title = Some (str ''Pilot''), ae_description = None \<rparr>,
                \<lparr> ae_number = 2, ae_title = None, ae_description = None \<rparr>] \<rparr>],
       totalCoreEpisodes = 2 \<rparr>"

definition animeOfMetaX :: AnimeSearchResult where
  "animeOfMetaX =
     \<lparr> as_anilistId = 7,
       as_title = \<lparr> romaji = str ''Sho X'', english = None, native = None \<rparr>,
       as_episodes = Some 2, as_format = str ''TV'', as_status = str ''FINISHED'' \<rparr>"

definition inputX :: ProcessFolderInput where
  "inputX =
     \<lparr> pf_folderPath = [str ''root'', str ''d1''], pf_folderName = str ''d1'',
       pf_seriesRootDir = [str ''root''], pf_seriesMetadata = metaX, pf_dryRun = False,
       pf_confidenceThreshold = 0.85 \<rparr>"

definition inputNoSeason :: ProcessFolderInput where
  "inputNoSeason = inputX \<lparr> pf_seriesMetadata := metaX \<lparr> seasons := [] \<rparr> \<rparr>"

definition reviewA :: ReviewItem where
  "reviewA = reviewItemFor inputX [] (matchX 1 2)"

definition reviewB :: ReviewItem where
  "reviewB =
     reviewItemFor inputX []
       ((matchX 1 1)\<lparr> em_fileName := str ''b.mkv'',
                       em_filePath := [str ''root'', str ''d1'', str ''b.mkv''] \<rparr>)"

definition decide :: "ReviewItem \<Rightarrow> bool \<Rightarrow> nat option \<Rightarrow> ReviewDecision" where
  "decide review ok episode =
     \<lparr> rd_reviewItemId = ri_id review, rd_approved = ok,
       rd_correctedSeasonNumber = None, rd_correctedEpisodeNumber = episode \<rparr>"

definition reviewState0 :: ReviewState where
  "reviewState0 =
     \<lparr> pendingReviews = [reviewA, reviewB], resolvedReviews = Map.empty, renamedFiles = [],
       episodesCopied = 0, currentFile = None, files = fsX \<rparr>"

definition completedFolderX :: FolderResult where
  "completedFolderX =
     \<lparr> fr_folderName = str ''d1'', fr_folderPath = [str ''root'', str ''d1''],
       fr_status = folder_completed, fr_episodesFound = 1, fr_episodesRenamed = 1,
       fr_episodesPendingReview = 0, fr_error = None \<rparr>"

definition failedFolderX :: FolderResult where
  "failedFolderX =
     \<lparr> fr_folderName = str ''d2'', fr_folderPath = [str ''root'', str ''d2''],
       fr_status = folder_failed, fr_episodesFound = 3, fr_episodesRenamed = 0,
       fr_episodesPendingReview = 0,
       fr_error = Some (str ''Could not extract subtitles from any file'') \<rparr>"

definition stagingFileX :: SourceFileInfo where
  "stagingFileX =
     \<lparr> sf_path = [str ''staging'', str ''wf'', str ''Sho X'', str ''Season 01'', str ''e1.mkv''],
       sf_relativePath = [str ''Season 01'', str ''e1.mkv''], sf_name = str ''e1.mkv'',
       sf_size = 10 \<rparr>"

section \<open>Rounding to doubles\<close>

text \<open>
  The exponent found by halving and doubling is the one that brackets the number; rounding
  is monotone, exact on the integers below \<open>2^53\<close> and on their halves, and moves a number
  by at most the fraction \<open>2^-53\<close> of itself.
\<close>

lemma expoUp_spec: "1 \<le> x \<Longrightarrow> 2 powi expoUp x \<le> x \<and> x < 2 powi (expoUp x + 1)"
proof (induction x rule: expoUp.induct)
  case (1 x)
  show ?case
  proof (cases "x < 2")
    case True
    then show ?thesis using 1 by (simp add: expoUp.simps [of x])
  next
    case False
    then have "1 \<le> x / 2" by simp
    from 1(1) [OF False this] have ih: "2 powi expoUp (x / 2) \<le> x / 2" "x / 2 < 2 powi (expoUp (x / 2) + 1)"
      by simp_all
    have e: "expoUp x = expoUp (x / 2) + 1" using False by (simp add: expoUp.simps [of x])
    have p: "\<And>k::int. (2::real) powi (k + 1) = 2 powi k * 2" by (simp add: power_int_add)
    show ?thesis using ih unfolding e p by simp
  qed
qed

lemma expoDown_spec: "0 < x \<Longrightarrow> x < 1 \<Longrightarrow> 2 powi expoDown x \<le> x \<and> x < 2 powi (expoDown x + 1)"
proof (induction x rule: expoDown.induct)
  case (1 x)
  have e: "expoDown x = expoDown (2 * x) - 1" using 1(2,3) by (simp add: expoDown.simps [of x])
  have p: "\<And>k::int. (2::real) powi (k - 1) = 2 powi k / 2" by (simp add: power_int_diff)
  show ?case
  proof (cases "1 \<le> 2 * x")
    case True
    then have "expoDown (2 * x) = 0" by (simp add: expoDown.simps [of "2 * x"])
    then show ?thesis using True 1(3) unfolding e by simp
  next
    case False
    then have lt: "2 * x < 1" by simp
    have "\<not> (x \<le> 0 \<or> 1 \<le> x)" using 1(2,3) by simp
    from 1(1) [OF this _ lt] 1(2)
    have ih: "2 powi expoDown (2 * x) \<le> 2 * x" "2 * x < 2 powi (expoDown (2 * x) + 1)"
      by simp_all
    have q: "(2::real) powi (expoDown (2 * x) + 1) = 2 powi expoDown (2 * x) * 2"
      by (simp add: power_int_add)
    show ?thesis using ih unfolding e p q by simp
  qed
qed

lemma exponent_spec:
  assumes "0 < x"
  shows "2 powi exponent x \<le> x" and "x < 2 powi (exponent x + 1)"
  using assms expoUp_spec [of x] expoDown_spec [of x] by (auto simp: exponent_def)

lemma exponent_unique:
  assumes "2 powi e \<le> x" and "x < 2 powi (e + 1)"
  shows "exponent x = e"
proof -
  have pos: "0 < x" using assms(1) by (rule less_le_trans [rotated]) simp
  note s = exponent_spec [OF pos]
  have "(2::real) powi e < 2 powi (exponent x + 1)" using assms(1) s(2) by simp
  then have a: "e < exponent x + 1"
    using power_int_increasing [of "exponent x + 1" e "2::real"] by (cases "e < exponent x + 1") auto
  have "(2::real) powi exponent x < 2 powi (e + 1)" using assms(2) s(1) by simp
  then have b: "exponent x < e + 1"
    using power_int_increasing [of "e + 1" "exponent x" "2::real"] by (cases "exponent x < e + 1") auto
  from a b show ?thesis by simp
qed

lemma roundHalfEven_bounds: "of_int (roundHalfEven q) \<le> q + 1 / 2" "q - 1 / 2 \<le> of_int (roundHalfEven q)"
  "\<lfloor>q\<rfloor> \<le> roundHalfEven q" "roundHalfEven q \<le> \<lfloor>q\<rfloor> + 1"
  unfolding roundHalfEven_def Let_def by (auto; linarith)+

lemma roundHalfEven_mono:
  assumes "q \<le> q'"
  shows "roundHalfEven q \<le> roundHalfEven q'"
proof (cases "\<lfloor>q\<rfloor> < \<lfloor>q'\<rfloor>")
  case True
  have "roundHalfEven q \<le> \<lfloor>q\<rfloor> + 1" by (rule roundHalfEven_bounds)
  also have "\<dots> \<le> \<lfloor>q'\<rfloor>" using True by simp
  also have "\<dots> \<le> roundHalfEven q'" by (rule roundHalfEven_bounds)
  finally show ?thesis .
next
  case False
  moreover have "\<lfloor>q\<rfloor> \<le> \<lfloor>q'\<rfloor>" using assms by (rule floor_mono)
  ultimately have "\<lfloor>q\<rfloor> = \<lfloor>q'\<rfloor>" by simp
  then show ?thesis using assms unfolding roundHalfEven_def Let_def by auto
qed

lemma roundHalfEven_of_int: "roundHalfEven (of_int m) = m"
  by (simp add: roundHalfEven_def)

lemma roundHalfEven_ge: "of_int m \<le> q \<Longrightarrow> m \<le> roundHalfEven q"
  using roundHalfEven_mono [of "of_int m" q] by (simp add: roundHalfEven_of_int)

lemma roundHalfEven_le: "q \<le> of_int m \<Longrightarrow> roundHalfEven q \<le> m"
  using roundHalfEven_mono [of q "of_int m"] by (simp add: roundHalfEven_of_int)

lemma ulp_pos: "0 < ulp x"
  by (simp add: ulp_def)

lemma ulp_scaled:
  assumes "0 < x"
  shows "2 ^ 52 \<le> x / ulp x" and "x / ulp x < 2 ^ 53"
proof -
  have u: "ulp x = 2 powi exponent x / 2 ^ 52" by (simp add: ulp_def power_int_diff)
  note s = exponent_spec [OF assms]
  have p: "(0::real) < 2 powi exponent x" by simp
  show "2 ^ 52 \<le> x / ulp x" using s(1) p unfolding u by (simp add: field_simps)
  have "x < 2 powi exponent x * 2" using s(2) by (simp add: power_int_add)
  then show "x / ulp x < 2 ^ 53" using p unfolding u by (simp add: field_simps)
qed

lemma fl_pos: "0 < x \<Longrightarrow> fl x = of_int (roundHalfEven (x / ulp x)) * ulp x"
  by (simp add: fl_def)

lemma fl_range:
  assumes "0 < x"
  shows "2 powi exponent x \<le> fl x" and "fl x \<le> 2 powi (exponent x + 1)"
proof -
  note s = ulp_scaled [OF assms]
  have u: "2 powi exponent x = 2 ^ 52 * ulp x" "2 powi (exponent x + 1) = 2 ^ 53 * ulp x"
    by (simp_all add: ulp_def power_int_diff power_int_add)
  have "of_int (2 ^ 52) \<le> x / ulp x" using s(1) by simp
  then have "(2::int) ^ 52 \<le> roundHalfEven (x / ulp x)" by (rule roundHalfEven_ge)
  then have "(of_int ((2::int) ^ 52) :: real) \<le> of_int (roundHalfEven (x / ulp x))"
    by (simp only: of_int_le_iff)
  then have "(2::real) ^ 52 \<le> of_int (roundHalfEven (x / ulp x))" by simp
  then show "2 powi exponent x \<le> fl x"
    unfolding u fl_pos [OF assms] using ulp_pos [of x] by simp
  have "x / ulp x \<le> of_int (2 ^ 53)" using s(2) by simp
  then have "roundHalfEven (x / ulp x) \<le> (2::int) ^ 53" by (rule roundHalfEven_le)
  then have "(of_int (roundHalfEven (x / ulp x)) :: real) \<le> of_int ((2::int) ^ 53)"
    by (simp only: of_int_le_iff)
  then have "of_int (roundHalfEven (x / ulp x)) \<le> (2::real) ^ 53" by simp
  then show "fl x \<le> 2 powi (exponent x + 1)"
    unfolding u fl_pos [OF assms] using ulp_pos [of x] by simp
qed

lemma exponent_mono:
  assumes "0 < x" and "x \<le> y"
  shows "exponent x \<le> exponent y"
proof (rule ccontr)
  assume "\<not> ?thesis"
  then have "exponent y + 1 \<le> exponent x" by simp
  then have "(2::real) powi (exponent y + 1) \<le> 2 powi exponent x"
    by (rule power_int_increasing) simp
  moreover have "0 < y" using assms by simp
  ultimately show False
    using exponent_spec(2) [of y] exponent_spec(1) [OF assms(1)] assms(2) by linarith
qed

lemma fl_nonneg: "0 \<le> x \<Longrightarrow> 0 \<le> fl x"
proof (cases "x = 0")
  case False
  assume "0 \<le> x"
  with False have "0 < x" by simp
  from fl_range(1) [OF this] show ?thesis
    by (rule order_trans [rotated]) simp
qed (simp add: fl_def)

lemma fl_mono:
  assumes "0 \<le> x" and "x \<le> y"
  shows "fl x \<le> fl y"
proof (cases "x = 0")
  case True
  then show ?thesis using assms fl_nonneg [of y] by (simp add: fl_def)
next
  case False
  then have x: "0 < x" and y: "0 < y" using assms by simp_all
  show ?thesis
  proof (cases "exponent x = exponent y")
    case True
    then have u: "ulp y = ulp x" by (simp add: ulp_def)
    have "x / ulp x \<le> y / ulp x" using assms(2) ulp_pos [of x] by (simp add: divide_right_mono)
    then have "roundHalfEven (x / ulp x) \<le> roundHalfEven (y / ulp x)" by (rule roundHalfEven_mono)
    then have "(of_int (roundHalfEven (x / ulp x)) :: real) \<le> of_int (roundHalfEven (y / ulp x))"
      by (simp only: of_int_le_iff)
    then show ?thesis unfolding fl_pos [OF x] fl_pos [OF y] u using ulp_pos [of x]
      by (simp add: mult_right_mono)
  next
    case False
    with exponent_mono [OF x assms(2)] have "exponent x + 1 \<le> exponent y" by simp
    then have "(2::real) powi (exponent x + 1) \<le> 2 powi exponent y"
      by (rule power_int_increasing) simp
    with fl_range(2) [OF x] fl_range(1) [OF y] show ?thesis by linarith
  qed
qed

lemma fl_minus: "fl (- x) = - fl x"
  by (simp add: fl_def)

lemma fl_monotone:
  assumes "x \<le> y"
  shows "fl x \<le> fl y"
proof (cases "0 \<le> x")
  case True
  then show ?thesis using assms by (rule fl_mono)
next
  case False
  then have nx: "0 \<le> - x" by simp
  show ?thesis
  proof (cases "0 \<le> y")
    case True
    have "0 \<le> fl (- x)" using nx by (rule fl_nonneg)
    moreover have "0 \<le> fl y" using True by (rule fl_nonneg)
    ultimately show ?thesis by (simp add: fl_minus)
  next
    case False
    then have "0 \<le> - y" by simp
    moreover have "- y \<le> - x" using assms by simp
    ultimately have "fl (- y) \<le> fl (- x)" by (rule fl_mono)
    then show ?thesis by (simp add: fl_minus)
  qed
qed

lemma fl_error:
  assumes "0 \<le> x"
  shows "\<bar>fl x - x\<bar> \<le> x / 2 ^ 53"
proof (cases "x = 0")
  case True
  then show ?thesis by (simp add: fl_def)
next
  case False
  then have x: "0 < x" using assms by simp
  let ?q = "x / ulp x"
  have "\<bar>of_int (roundHalfEven ?q) - ?q\<bar> \<le> 1 / 2"
    using roundHalfEven_bounds(1,2) [of ?q] by linarith
  then have "\<bar>of_int (roundHalfEven ?q) - ?q\<bar> * ulp x \<le> 1 / 2 * ulp x"
    using ulp_pos [of x] by (simp add: mult_right_mono)
  moreover have "\<bar>of_int (roundHalfEven ?q) - ?q\<bar> * ulp x = \<bar>fl x - x\<bar>"
  proof -
    have "\<bar>of_int (roundHalfEven ?q) - ?q\<bar> * ulp x = \<bar>(of_int (roundHalfEven ?q) - ?q) * ulp x\<bar>"
      using ulp_pos [of x] by (simp add: abs_mult)
    also have "(of_int (roundHalfEven ?q) - ?q) * ulp x = fl x - x"
      using ulp_pos [of x] by (simp add: fl_pos [OF x] left_diff_distrib)
    finally show ?thesis .
  qed
  moreover have "1 / 2 * ulp x \<le> x / 2 ^ 53"
  proof -
    have "ulp x = 2 powi exponent x / 2 ^ 52" by (simp add: ulp_def power_int_diff)
    then show ?thesis using exponent_spec(1) [OF x] by simp
  qed
  ultimately show ?thesis by linarith
qed

lemma fl_exact:
  assumes "0 < x" and "x / ulp x = of_int m"
  shows "fl x = x"
proof -
  have "fl x = of_int m * ulp x" using assms by (simp add: fl_pos roundHalfEven_of_int)
  also have "\<dots> = x / ulp x * ulp x" using assms(2) by simp
  also have "\<dots> = x" using ulp_pos [of x] by simp
  finally show ?thesis .
qed

lemma fl_dyadic:
  fixes n k :: nat
  assumes "n < 2 ^ 53"
  shows "fl (real n / 2 ^ k) = real n / 2 ^ k"
proof (cases "n = 0")
  case True
  then show ?thesis by (simp add: fl_def)
next
  case False
  let ?x = "real n / 2 ^ k"
  have x: "0 < ?x" using False by simp
  have "?x < 2 ^ 53 / 2 ^ k" using assms by (simp add: divide_strict_right_mono)
  also have "\<dots> = 2 powi (53 - int k)" by (simp add: power_int_diff)
  finally have "2 powi exponent ?x < (2::real) powi (53 - int k)"
    using exponent_spec(1) [OF x] by linarith
  then have "exponent ?x < 53 - int k"
    using power_int_increasing [of "53 - int k" "exponent ?x" "2::real"]
    by (cases "exponent ?x < 53 - int k") auto
  then have "52 - exponent ?x = int k + int (nat (52 - exponent ?x - int k))" by simp
  then obtain j :: nat where j: "52 - exponent ?x = int k + int j" ..
  have "ulp ?x = 1 / 2 powi (52 - exponent ?x)" by (simp add: ulp_def power_int_diff)
  also have "\<dots> = 1 / (2 ^ k * 2 ^ j)" unfolding j by (simp add: power_int_add)
  finally have "?x / ulp ?x = of_int (int n * 2 ^ j)" by simp
  with x show ?thesis by (rule fl_exact)
qed

lemma fl_of_nat: "n < 2 ^ 53 \<Longrightarrow> fl (real n) = real n"
  using fl_dyadic [of n 0] by simp

lemma fl_eval:
  assumes "2 powi e \<le> x" and "x < 2 powi (e + 1)"
  shows "fl x = of_int (roundHalfEven (x / 2 powi (e - 52))) * 2 powi (e - 52)"
proof -
  have "0 < x" using assms(1) by (rule less_le_trans [rotated]) simp
  then show ?thesis by (simp add: fl_pos ulp_def exponent_unique [OF assms])
qed

lemmas fl_numeral = fl_def ulp_def exponent_def expoUp.simps expoDown.simps roundHalfEven_def
  Let_def power_int_minus_divide

section \<open>The file-name sanitizer\<close>

lemma isWhiteSpace_space: "isWhiteSpace 32"
  by (simp add: isWhiteSpace_def)

lemma invalidChar_space: "\<not> invalidChar 32"
  by (simp add: invalidChar_def)

lemma collapsedForm_collapseRuns: "collapsedForm b (collapseRuns b s)"
  by (induction s arbitrary: b) (simp_all add: isWhiteSpace_space)

lemma collapseRuns_fixed: "collapsedForm b s \<Longrightarrow> collapseRuns b s = s"
  by (induction s arbitrary: b) (auto split: if_splits)

lemma collapsedForm_weaken: "collapsedForm True s \<Longrightarrow> collapsedForm False s"
  by (cases s) (auto split: if_splits)

lemma collapsedForm_any: "collapsedForm b s \<Longrightarrow> collapsedForm False s"
  by (cases b) (simp_all add: collapsedForm_weaken)

lemma collapsedForm_dropWhile:
  "collapsedForm b s \<Longrightarrow> collapsedForm False (dropWhile isWhiteSpace s)"
proof (induction s arbitrary: b)
  case Nil
  then show ?case by simp
next
  case (Cons c cs)
  show ?case
  proof (cases "isWhiteSpace c")
    case True
    with Cons.prems have "collapsedForm True cs" by simp
    then have "collapsedForm False (dropWhile isWhiteSpace cs)" by (rule Cons.IH)
    with True show ?thesis by simp
  next
    case False
    with Cons.prems have "collapsedForm False (c # cs)" by simp
    with False show ?thesis by simp
  qed
qed

lemma collapsedForm_prefix: "collapsedForm b (xs @ ys) \<Longrightarrow> collapsedForm b xs"
  by (induction xs arbitrary: b) (auto split: if_splits)

lemma dropWhile_rev_prefix:
  "s = rev (dropWhile P (rev s)) @ rev (takeWhile P (rev s))"
proof -
  have "rev (dropWhile P (rev s)) @ rev (takeWhile P (rev s))
          = rev (takeWhile P (rev s) @ dropWhile P (rev s))"
    by (simp only: rev_append)
  also have "\<dots> = rev (rev s)" by (simp only: takeWhile_dropWhile_id)
  finally show ?thesis by simp
qed

lemma collapsedForm_dropTrailing:
  assumes "collapsedForm b s"
  shows "collapsedForm b (rev (dropWhile P (rev s)))"
proof -
  have "collapsedForm b (rev (dropWhile P (rev s)) @ rev (takeWhile P (rev s)))"
    using assms dropWhile_rev_prefix [of s P] by simp
  then show ?thesis by (rule collapsedForm_prefix)
qed

lemma collapsedForm_trim: "collapsedForm b s \<Longrightarrow> collapsedForm False (trim s)"
  unfolding trim_def
  by (intro collapsedForm_dropTrailing collapsedForm_dropWhile)

lemma dropWhile_fixed: "(s \<noteq> [] \<Longrightarrow> \<not> P (hd s)) \<Longrightarrow> dropWhile P s = s"
  by (cases s) auto

lemma trim_trim: "trim (trim s) = trim s"
proof -
  define u where "u = dropWhile isWhiteSpace s"
  define v where "v = dropWhile isWhiteSpace (rev u)"
  have t: "trim s = rev v" by (simp add: trim_def u_def v_def)
  have front: "dropWhile isWhiteSpace (rev v) = rev v"
  proof (rule dropWhile_fixed)
    assume ne: "rev v \<noteq> []"
    have u_split: "u = rev v @ rev (takeWhile isWhiteSpace (rev u))"
      unfolding v_def by (rule dropWhile_rev_prefix)
    from ne u_split have "hd (rev v) = hd u" by (metis hd_append2)
    moreover from ne u_split have "u \<noteq> []" by auto
    then have "\<not> isWhiteSpace (hd u)" unfolding u_def by (rule hd_dropWhile)
    ultimately show "\<not> isWhiteSpace (hd (rev v))" by simp
  qed
  have rear: "dropWhile isWhiteSpace v = v"
  proof (rule dropWhile_fixed)
    assume "v \<noteq> []"
    then show "\<not> isWhiteSpace (hd v)" unfolding v_def by (rule hd_dropWhile)
  qed
  have "trim (rev v) = rev (dropWhile isWhiteSpace (rev (dropWhile isWhiteSpace (rev v))))"
    by (simp only: trim_def)
  also have "\<dots> = rev (dropWhile isWhiteSpace (rev (rev v)))" by (simp only: front)
  also have "\<dots> = rev (dropWhile isWhiteSpace v)" by (simp only: rev_rev_ident)
  also have "\<dots> = rev v" by (simp only: rear)
  finally show ?thesis by (simp only: t)
qed

lemma set_collapseRuns: "set (collapseRuns b s) \<subseteq> insert 32 (set s)"
  by (induction s arbitrary: b) auto

lemma set_trim: "set (trim s) \<subseteq> set s"
proof -
  have "set (trim s) \<subseteq> set (dropWhile isWhiteSpace s)"
    unfolding trim_def using set_dropWhileD by fastforce
  also have "\<dots> \<subseteq> set s" using set_dropWhileD by fastforce
  finally show ?thesis .
qed

lemma sanitizeFileName_valid: "\<forall>c \<in> set (sanitizeFileName s). \<not> invalidChar c"
proof
  fix c assume "c \<in> set (sanitizeFileName s)"
  then have "c \<in> set (collapseRuns False (filter (\<lambda>c. \<not> invalidChar c) s))"
    unfolding sanitizeFileName_def using set_trim by blast
  then have "c = 32 \<or> c \<in> set (filter (\<lambda>c. \<not> invalidChar c) s)"
    using set_collapseRuns by blast
  then show "\<not> invalidChar c" using invalidChar_space by auto
qed

text \<open>
  C10. The sanitizer is idempotent: sanitizing a sanitized name changes nothing, for every
  string.
\<close>

theorem sanitizeFileName_idempotent:
  "sanitizeFileName (sanitizeFileName s) = sanitizeFileName s"
proof -
  define t where "t = sanitizeFileName s"
  have "filter (\<lambda>c. \<not> invalidChar c) t = t"
    unfolding t_def using sanitizeFileName_valid [of s] by (simp add: filter_id_conv)
  moreover have "collapsedForm False t"
    unfolding t_def sanitizeFileName_def
    by (rule collapsedForm_trim) (rule collapsedForm_collapseRuns)
  then have "collapseRuns False t = t" by (rule collapseRuns_fixed)
  moreover have "trim t = t"
    unfolding t_def sanitizeFileName_def by (rule trim_trim)
  ultimately have "sanitizeFileName t = t" by (simp add: sanitizeFileName_def)
  then show ?thesis by (simp add: t_def)
qed

section \<open>Proportional truncation of the subtitle text\<close>

lemma totalChars_sum: "totalChars subs = sum_list (map (\<lambda>sub. length (es_content sub)) subs)"
proof -
  have "foldl (\<lambda>sum sub. sum + length (es_content sub)) a subs
          = a + sum_list (map (\<lambda>sub. length (es_content sub)) subs)" for a
    by (induction subs arbitrary: a) simp_all
  then show ?thesis by (simp add: totalChars_def)
qed

lemma fl_upper:
  assumes "0 \<le> x"
  shows "fl x \<le> x * (1 + 1 / 2 ^ 53)"
proof -
  have "x * (1 + 1 / 2 ^ 53) = x + x / 2 ^ 53" by (simp only: distrib_left mult_1_right times_divide_eq_right)
  with fl_error [OF assms] show ?thesis by linarith
qed

lemma fl_lower:
  assumes "0 \<le> x"
  shows "x * (1 - 1 / 2 ^ 53) \<le> fl x"
proof -
  have "x * (1 - 1 / 2 ^ 53) = x - x / 2 ^ 53" by (simp only: right_diff_distrib mult_1_right times_divide_eq_right)
  with fl_error [OF assms] show ?thesis by linarith
qed


lemma allowedChars_between:
  fixes t :: nat
  defines "x \<equiv> \<lambda>sub. real (length (es_content sub)) / real t * real MAX_TOTAL_CHARS"
  shows "0 \<le> fmul (fdiv (real (length (es_content sub))) (real t)) (real MAX_TOTAL_CHARS)"
    and "fmul (fdiv (real (length (es_content sub))) (real t)) (real MAX_TOTAL_CHARS)
           \<le> x sub * ((1 + 1 / 2 ^ 53) * (1 + 1 / 2 ^ 53))"
    and "x sub * ((1 - 1 / 2 ^ 53) * (1 - 1 / 2 ^ 53))
           \<le> fmul (fdiv (real (length (es_content sub))) (real t)) (real MAX_TOTAL_CHARS)"
proof -
  let ?q = "real (length (es_content sub)) / real t"
  let ?M = "real MAX_TOTAL_CHARS"
  have q0: "0 \<le> ?q" by simp
  have d0: "0 \<le> fdiv (real (length (es_content sub))) (real t)"
    unfolding fdiv_def using q0 by (rule fl_nonneg)
  then have p0: "0 \<le> fdiv (real (length (es_content sub))) (real t) * ?M" by simp
  show "0 \<le> fmul (fdiv (real (length (es_content sub))) (real t)) ?M"
    unfolding fmul_def using p0 by (rule fl_nonneg)
  have d1: "fdiv (real (length (es_content sub))) (real t) \<le> ?q * (1 + 1 / 2 ^ 53)"
    unfolding fdiv_def using q0 by (rule fl_upper)
  have "fmul (fdiv (real (length (es_content sub))) (real t)) ?M
          \<le> fdiv (real (length (es_content sub))) (real t) * ?M * (1 + 1 / 2 ^ 53)"
    unfolding fmul_def using p0 by (rule fl_upper)
  also have "\<dots> \<le> ?q * (1 + 1 / 2 ^ 53) * ?M * (1 + 1 / 2 ^ 53)"
    using d1 by (intro mult_right_mono) simp_all
  finally show "fmul (fdiv (real (length (es_content sub))) (real t)) ?M
           \<le> x sub * ((1 + 1 / 2 ^ 53) * (1 + 1 / 2 ^ 53))"
    by (simp add: x_def mult_ac)
  have d2: "?q * (1 - 1 / 2 ^ 53) \<le> fdiv (real (length (es_content sub))) (real t)"
    unfolding fdiv_def using q0 by (rule fl_lower)
  have "?q * (1 - 1 / 2 ^ 53) * ?M * (1 - 1 / 2 ^ 53)
          \<le> fdiv (real (length (es_content sub))) (real t) * ?M * (1 - 1 / 2 ^ 53)"
    using d2 by (intro mult_right_mono) simp_all
  also have "\<dots> \<le> fmul (fdiv (real (length (es_content sub))) (real t)) ?M"
    unfolding fmul_def using p0 by (rule fl_lower)
  finally show "x sub * ((1 - 1 / 2 ^ 53) * (1 - 1 / 2 ^ 53))
           \<le> fmul (fdiv (real (length (es_content sub))) (real t)) ?M"
    by (simp add: x_def mult_ac)
qed

lemma allowedChars_near_exact:
  assumes "length (es_content sub) \<le> t" and "0 < t"
  shows "allowedChars t sub \<le> exactAllowedChars t sub + 1"
    and "exactAllowedChars t sub \<le> allowedChars t sub + 1"
proof -
  let ?x = "real (length (es_content sub)) / real t * real MAX_TOTAL_CHARS"
  let ?y = "fmul (fdiv (real (length (es_content sub))) (real t)) (real MAX_TOTAL_CHARS)"
  note b = allowedChars_between [of sub t]
  have "real (length (es_content sub)) / real t \<le> 1" using assms by simp
  then have xM: "?x \<le> 500000"
    using mult_right_mono [of "real (length (es_content sub)) / real t" 1 "real MAX_TOTAL_CHARS"]
    by (simp add: MAX_TOTAL_CHARS_def)
  have x0: "0 \<le> ?x" by simp
  have up: "?x * ((1 + 1 / 2 ^ 53) * (1 + 1 / 2 ^ 53)) = ?x + ?x * (((1 + 1 / 2 ^ 53) * (1 + 1 / 2 ^ 53)) - 1)"
    by (simp only: right_diff_distrib mult_1_right)
  have "?x * (((1 + 1 / 2 ^ 53) * (1 + 1 / 2 ^ 53)) - 1) \<le> 500000 * (((1 + 1 / 2 ^ 53) * (1 + 1 / 2 ^ 53)) - 1)"
    using xM by (intro mult_right_mono) simp_all
  also have "\<dots> < (1::real)" by simp
  finally have yx: "?y < ?x + 1" using b(2) up by linarith
  have lo: "?x * ((1 - 1 / 2 ^ 53) * (1 - 1 / 2 ^ 53)) = ?x - ?x * (1 - ((1 - 1 / 2 ^ 53) * (1 - 1 / 2 ^ 53)))"
    by (simp only: right_diff_distrib mult_1_right)
  have "?x * (1 - ((1 - 1 / 2 ^ 53) * (1 - 1 / 2 ^ 53))) \<le> 500000 * (1 - ((1 - 1 / 2 ^ 53) * (1 - 1 / 2 ^ 53)))"
    using xM by (intro mult_right_mono) simp_all
  also have "\<dots> < (1::real)" by simp
  finally have xy: "?x < ?y + 1" using b(3) lo by linarith
  have fy: "\<lfloor>?y\<rfloor> \<le> \<lfloor>?x\<rfloor> + 1" using yx by linarith
  have fx: "\<lfloor>?x\<rfloor> \<le> \<lfloor>?y\<rfloor> + 1" using xy by linarith
  have "0 \<le> \<lfloor>?x\<rfloor>" using x0 by simp
  moreover have "0 \<le> \<lfloor>?y\<rfloor>" using b(1) by simp
  ultimately show "allowedChars t sub \<le> exactAllowedChars t sub + 1"
    and "exactAllowedChars t sub \<le> allowedChars t sub + 1"
    using fy fx unfolding allowedChars_def exactAllowedChars_def by linarith+
qed

lemma allowedChars_le:
  "real (allowedChars t sub)
     \<le> real (length (es_content sub)) / real t * real MAX_TOTAL_CHARS * ((1 + 1 / 2 ^ 53) * (1 + 1 / 2 ^ 53))"
proof -
  note b = allowedChars_between [of sub t]
  have "0 \<le> \<lfloor>fmul (fdiv (real (length (es_content sub))) (real t)) (real MAX_TOTAL_CHARS)\<rfloor>"
    using b(1) by simp
  then have "real (allowedChars t sub)
      = real_of_int \<lfloor>fmul (fdiv (real (length (es_content sub))) (real t)) (real MAX_TOTAL_CHARS)\<rfloor>"
    by (simp add: allowedChars_def)
  with b(2) show ?thesis by linarith
qed

lemma allowed_sum:
  "(\<Sum>sub\<leftarrow>subs. real (allowedChars t sub))
     \<le> real (sum_list (map (\<lambda>sub. length (es_content sub)) subs)) / real t * real MAX_TOTAL_CHARS
          * ((1 + 1 / 2 ^ 53) * (1 + 1 / 2 ^ 53))"
proof (induction subs)
  case Nil show ?case by simp
next
  case (Cons a subs)
  have "(\<Sum>sub\<leftarrow>a # subs. real (allowedChars t sub))
          = real (allowedChars t a) + (\<Sum>sub\<leftarrow>subs. real (allowedChars t sub))" by simp
  also have "\<dots> \<le> real (length (es_content a)) / real t * real MAX_TOTAL_CHARS * ((1 + 1 / 2 ^ 53) * (1 + 1 / 2 ^ 53))
       + real (sum_list (map (\<lambda>sub. length (es_content sub)) subs)) / real t * real MAX_TOTAL_CHARS
           * ((1 + 1 / 2 ^ 53) * (1 + 1 / 2 ^ 53))"
    using allowedChars_le [of t a] Cons.IH by linarith
  also have "\<dots> = real (sum_list (map (\<lambda>sub. length (es_content sub)) (a # subs))) / real t * real MAX_TOTAL_CHARS
          * ((1 + 1 / 2 ^ 53) * (1 + 1 / 2 ^ 53))"
    by (simp only: list.map sum_list.Cons of_nat_add add_divide_distrib distrib_right)
  finally show ?case .
qed

lemma prompt_bound:
  assumes "MAX_TOTAL_CHARS < totalChars subs"
  shows "promptSubtitleChars subs \<le> MAX_TOTAL_CHARS"
proof -
  let ?t = "totalChars subs"
  have tpos: "0 < ?t" using assms by simp
  have "real (promptSubtitleChars subs) = (\<Sum>sub\<leftarrow>subs. real (length (snippetContent subs sub)))"
  proof -
    have "real (sum_list (map f xs)) = (\<Sum>x\<leftarrow>xs. real (f x))" for f :: "ExtractedSubtitles \<Rightarrow> nat" and xs
      by (induction xs) simp_all
    then show ?thesis by (simp add: promptSubtitleChars_def)
  qed
  also have "\<dots> \<le> (\<Sum>sub\<leftarrow>subs. real (allowedChars ?t sub))"
    by (rule sum_list_mono) (use assms in \<open>simp add: snippetContent_def needsTruncation_def\<close>)
  also have "\<dots> \<le> real (sum_list (map (\<lambda>sub. length (es_content sub)) subs)) / real ?t * real MAX_TOTAL_CHARS
                   * ((1 + 1 / 2 ^ 53) * (1 + 1 / 2 ^ 53))"
    by (rule allowed_sum)
  also have "\<dots> = real MAX_TOTAL_CHARS * ((1 + 1 / 2 ^ 53) * (1 + 1 / 2 ^ 53))"
    using tpos by (simp add: totalChars_sum [symmetric])
  also have "\<dots> < real MAX_TOTAL_CHARS + 1" by (simp add: MAX_TOTAL_CHARS_def)
  finally have "real (promptSubtitleChars subs) < real (MAX_TOTAL_CHARS + 1)" by simp
  then have "promptSubtitleChars subs < MAX_TOTAL_CHARS + 1" by (simp only: of_nat_less_iff)
  then show ?thesis by simp
qed

lemma length_joinWith:
  "length (joinWith sep xs) = sum_list (map length xs) + length sep * (length xs - 1)"
  by (induction sep xs rule: joinWith.induct) simp_all

lemma length_fileSnippets:
  "length (fileSnippets subs)
     = promptSubtitleChars subs + sum_list (map (\<lambda>sub. 11 + length (es_fileName sub)) subs)
       + 2 * (length subs - 1)"
proof -
  have "sum_list (map (\<lambda>sub. length (fileSnippet subs' sub)) subs)
          = sum_list (map (\<lambda>sub. length (snippetContent subs' sub)) subs)
            + sum_list (map (\<lambda>sub. 11 + length (es_fileName sub)) subs)" for subs'
    by (induction subs) (simp_all add: fileSnippet_def str_def)
  then show ?thesis
    by (simp add: fileSnippets_def length_joinWith promptSubtitleChars_def o_def)
qed

lemma member_le_total:
  assumes "sub \<in> set subs"
  shows "length (es_content sub) \<le> totalChars subs"
  unfolding totalChars_sum using assms by (induction subs) auto

text \<open>
  C9 (amended). For a list of subtitles whose lengths total less than \<open>2^53\<close>: when the
  contents total more than 500 000 characters, each content is cut to
  \<open>floor((length / total) * 500000)\<close> characters, the quotient and the product rounded to
  doubles, which is at most one character away from the exact value, and the contents in the
  prompt total at most 500 000 characters; otherwise every content is passed unchanged. The
  prompt holds, for each file, the line \<open>### File: <name>\<close> and the content, with an
  empty line between files; these lines are not part of the 500 000.
\<close>

theorem matchEpisodes_truncation:
  assumes "isSafeInteger (totalChars subs)"
  shows "(MAX_TOTAL_CHARS < totalChars subs \<longrightarrow>
      (\<forall>sub \<in> set subs.
          snippetContent subs sub =
            take (nat \<lfloor>fmul (fdiv (real (length (es_content sub))) (real (totalChars subs))) 500000\<rfloor>)
              (es_content sub)
          \<and> nat \<lfloor>fmul (fdiv (real (length (es_content sub))) (real (totalChars subs))) 500000\<rfloor>
              \<le> nat \<lfloor>(real (length (es_content sub)) / real (totalChars subs)) * 500000\<rfloor> + 1
          \<and> nat \<lfloor>(real (length (es_content sub)) / real (totalChars subs)) * 500000\<rfloor>
              \<le> nat \<lfloor>fmul (fdiv (real (length (es_content sub))) (real (totalChars subs))) 500000\<rfloor> + 1)
      \<and> promptSubtitleChars subs \<le> 500000)
   \<and> (totalChars subs \<le> MAX_TOTAL_CHARS \<longrightarrow> (\<forall>sub \<in> set subs. snippetContent subs sub = es_content sub))
   \<and> fileSnippets subs
       = joinWith [10, 10]
           (map (\<lambda>sub. str ''### File: '' @ es_fileName sub @ [10] @ snippetContent subs sub) subs)
   \<and> length (fileSnippets subs)
       = promptSubtitleChars subs + sum_list (map (\<lambda>sub. 11 + length (es_fileName sub)) subs)
         + 2 * (length subs - 1)"
proof (intro conjI impI ballI)
  fix sub
  assume big: "MAX_TOTAL_CHARS < totalChars subs" and mem: "sub \<in> set subs"
  show "snippetContent subs sub =
          take (nat \<lfloor>fmul (fdiv (real (length (es_content sub))) (real (totalChars subs))) 500000\<rfloor>)
            (es_content sub)"
    using big by (simp add: snippetContent_def needsTruncation_def allowedChars_def MAX_TOTAL_CHARS_def)
  have pos: "0 < totalChars subs" using big by simp
  note near = allowedChars_near_exact [OF member_le_total [OF mem] pos]
  show "nat \<lfloor>fmul (fdiv (real (length (es_content sub))) (real (totalChars subs))) 500000\<rfloor>
          \<le> nat \<lfloor>(real (length (es_content sub)) / real (totalChars subs)) * 500000\<rfloor> + 1"
    using near(1) by (simp add: allowedChars_def exactAllowedChars_def MAX_TOTAL_CHARS_def)
  show "nat \<lfloor>(real (length (es_content sub)) / real (totalChars subs)) * 500000\<rfloor>
          \<le> nat \<lfloor>fmul (fdiv (real (length (es_content sub))) (real (totalChars subs))) 500000\<rfloor> + 1"
    using near(2) by (simp add: allowedChars_def exactAllowedChars_def MAX_TOTAL_CHARS_def)
next
  assume big: "MAX_TOTAL_CHARS < totalChars subs"
  show "promptSubtitleChars subs \<le> 500000"
    using prompt_bound [OF big] by (simp add: MAX_TOTAL_CHARS_def)
next
  fix sub
  assume "totalChars subs \<le> MAX_TOTAL_CHARS"
  then show "snippetContent subs sub = es_content sub"
    by (simp add: snippetContent_def needsTruncation_def)
next
  show "fileSnippets subs
       = joinWith [10, 10]
           (map (\<lambda>sub. str ''### File: '' @ es_fileName sub @ [10] @ snippetContent subs sub) subs)"
    by (simp add: fileSnippets_def fileSnippet_def [abs_def])
next
  show "length (fileSnippets subs)
       = promptSubtitleChars subs + sum_list (map (\<lambda>sub. 11 + length (es_fileName sub)) subs)
         + 2 * (length subs - 1)"
    by (rule length_fileSnippets)
qed

lemma totalChars_subA_subB: "totalChars [subA, subB] = 600000" by (simp add: totalChars_def subA_def subB_def)
lemma totalChars_subB: "totalChars [subB] = 200000" by (simp add: totalChars_def subA_def subB_def)
lemma totalChars_subC_subD: "totalChars [subC, subD] = 500080" by (simp add: totalChars_def subC_def subD_def)

lemma doubles_subA_subB:
  "\<lfloor>fmul (fdiv 400000 600000) 500000\<rfloor> = 333333" "\<lfloor>fmul (fdiv 200000 600000) 500000\<rfloor> = 166666"
  by (simp_all add: fdiv_def fmul_def fl_numeral)

lemma doubles_subC_subD:
  "\<lfloor>fmul (fdiv 256291 500080) 500000\<rfloor> = 256249" "\<lfloor>fmul (fdiv 243789 500080) 500000\<rfloor> = 243750"
  by (simp_all add: fdiv_def fmul_def fl_numeral)

theorem matchEpisodes_truncation_witness:
  "isSafeInteger (totalChars [subA, subB])
   \<and> MAX_TOTAL_CHARS < totalChars [subA, subB]
   \<and> snippetContent [subA, subB] subA = replicate 333333 97
   \<and> snippetContent [subA, subB] subB = replicate 166666 98
   \<and> promptSubtitleChars [subA, subB] \<le> 500000
   \<and> isSafeInteger (totalChars [subB])
   \<and> totalChars [subB] \<le> MAX_TOTAL_CHARS
   \<and> snippetContent [subB] subB = replicate 200000 98"
proof -
  have sa: "isSafeInteger (totalChars [subA, subB])" and sb: "isSafeInteger (totalChars [subB])"
    by (simp_all add: isSafeInteger_def totalChars_subA_subB totalChars_subB)
  have la: "length (es_content subA) = 400000" "length (es_content subB) = 200000"
    by (simp_all add: subA_def subB_def)
  from matchEpisodes_truncation [OF sa] matchEpisodes_truncation [OF sb] sa sb show ?thesis
    by (simp add: totalChars_subA_subB totalChars_subB MAX_TOTAL_CHARS_def la doubles_subA_subB,
        simp add: subA_def subB_def)
qed

text \<open>
  Two files of 256 291 and 243 789 characters: the first keeps 256 249 characters, where
  the formula in exact arithmetic gives 256 250; and the text placed in the prompt, with
  its two header lines and the empty line, is longer than 500 000 characters.
\<close>

theorem matchEpisodes_truncation_counterexample:
  "MAX_TOTAL_CHARS < totalChars [subC, subD]
   \<and> length (snippetContent [subC, subD] subC) = 256249
   \<and> nat \<lfloor>(real (length (es_content subC)) / real (totalChars [subC, subD])) * 500000\<rfloor> = 256250
   \<and> length (fileSnippets [subC, subD]) = 500033"
proof -
  have lc: "length (es_content subC) = 256291" "length (es_content subD) = 243789"
    by (simp_all add: subC_def subD_def)
  have c: "length (snippetContent [subC, subD] subC) = 256249"
    by (simp add: snippetContent_def needsTruncation_def allowedChars_def totalChars_subC_subD
        MAX_TOTAL_CHARS_def lc doubles_subC_subD)
  have d: "length (snippetContent [subC, subD] subD) = 243750"
    by (simp add: snippetContent_def needsTruncation_def allowedChars_def totalChars_subC_subD
        MAX_TOTAL_CHARS_def lc doubles_subC_subD)
  have n: "length (es_fileName subC) = 5" "length (es_fileName subD) = 5"
    by (simp_all add: subC_def subD_def str_def)
  have "length (fileSnippets [subC, subD]) = 500033"
    by (simp add: length_fileSnippets promptSubtitleChars_def c d n)
  with c show ?thesis by (simp add: totalChars_subC_subD MAX_TOTAL_CHARS_def lc)
qed


section \<open>The episode copy is idempotent\<close>

lemma copy_existing:
  "dryRun \<or> rf_newPath (renamedRecord m a e r) \<in> dom fs \<Longrightarrow>
     copyEpisodeToWorkDir m a e r dryRun fs = Inr (fs, renamedRecord m a e r)"
  by (auto simp: copyEpisodeToWorkDir_def Let_def)

lemma copy_result:
  assumes "copyEpisodeToWorkDir m a e r dryRun fs = Inr (fs1, r1)"
  shows "r1 = renamedRecord m a e r" and "dom fs \<subseteq> dom fs1"
    and "dryRun \<or> rf_newPath r1 \<in> dom fs1"
  using assms
  by (auto simp: copyEpisodeToWorkDir_def Let_def split: if_splits option.splits)

lemma copyMatches_existing:
  "dryRun \<or> (\<forall>m \<in> set ms. rf_newPath (renamedRecord m a e r) \<in> dom fs) \<Longrightarrow>
     copyMatches ms a e r dryRun (fs, acc) = Inr (fs, acc @ map (\<lambda>m. renamedRecord m a e r) ms)"
proof (induction ms arbitrary: acc)
  case Nil
  show ?case by simp
next
  case (Cons m ms)
  from Cons.prems have "copyEpisodeToWorkDir m a e r dryRun fs = Inr (fs, renamedRecord m a e r)"
    by (intro copy_existing) auto
  moreover from Cons.prems
  have "copyMatches ms a e r dryRun (fs, acc @ [renamedRecord m a e r])
          = Inr (fs, (acc @ [renamedRecord m a e r]) @ map (\<lambda>m. renamedRecord m a e r) ms)"
    by (intro Cons.IH) auto
  ultimately show ?case by simp
qed

lemma copyMatches_result:
  "copyMatches ms a e r dryRun (fs, acc) = Inr (fs1, rs) \<Longrightarrow>
     rs = acc @ map (\<lambda>m. renamedRecord m a e r) ms \<and> dom fs \<subseteq> dom fs1
     \<and> (dryRun \<or> (\<forall>m \<in> set ms. rf_newPath (renamedRecord m a e r) \<in> dom fs1))"
proof (induction ms arbitrary: fs acc)
  case Nil
  then show ?case by simp
next
  case (Cons m ms)
  from Cons.prems obtain fs' r' where
    c: "copyEpisodeToWorkDir m a e r dryRun fs = Inr (fs', r')" and
    rest: "copyMatches ms a e r dryRun (fs', acc @ [r']) = Inr (fs1, rs)"
    by (auto split: sum.splits)
  note c1 = copy_result [OF c]
  from Cons.IH [OF rest] have ih:
    "rs = (acc @ [r']) @ map (\<lambda>m. renamedRecord m a e r) ms" "dom fs' \<subseteq> dom fs1"
    "dryRun \<or> (\<forall>m \<in> set ms. rf_newPath (renamedRecord m a e r) \<in> dom fs1)"
    by auto
  from c1 ih show ?case by auto
qed

text \<open>
  C6. If the destination exists the call copies nothing and returns the same record as any
  other call; a second call after a successful one changes nothing and returns the same
  record; and running the whole copy loop a second time leaves the same files and yields the
  same records.
\<close>

theorem copyEpisodeToWorkDir_idempotent:
  "(rf_newPath (renamedRecord m a e r) \<in> dom fs \<longrightarrow>
      copyEpisodeToWorkDir m a e r dryRun fs = Inr (fs, renamedRecord m a e r))
   \<and> (copyEpisodeToWorkDir m a e r dryRun fs = Inr (fs1, r1) \<longrightarrow>
        r1 = renamedRecord m a e r \<and> copyEpisodeToWorkDir m a e r dryRun fs1 = Inr (fs1, r1))
   \<and> (copyMatches ms a e r dryRun (fs, []) = Inr (fs2, rs) \<longrightarrow>
        copyMatches ms a e r dryRun (fs2, []) = Inr (fs2, rs))"
proof (intro conjI impI)
  assume "rf_newPath (renamedRecord m a e r) \<in> dom fs"
  then show "copyEpisodeToWorkDir m a e r dryRun fs = Inr (fs, renamedRecord m a e r)"
    by (simp add: copy_existing)
next
  assume c: "copyEpisodeToWorkDir m a e r dryRun fs = Inr (fs1, r1)"
  from copy_result [OF c] show "r1 = renamedRecord m a e r" by simp
  from copy_result [OF c] show "copyEpisodeToWorkDir m a e r dryRun fs1 = Inr (fs1, r1)"
    using copy_existing [of dryRun m a e r fs1] by auto
next
  assume c: "copyMatches ms a e r dryRun (fs, []) = Inr (fs2, rs)"
  from copyMatches_result [OF c] show "copyMatches ms a e r dryRun (fs2, []) = Inr (fs2, rs)"
    using copyMatches_existing [of dryRun ms a e r fs2 "[]"] by auto
qed

section \<open>Plex names and the season and episode token\<close>

lemma decimalDigits_nonempty: "decimalDigits n \<noteq> []"
  by (subst decimalDigits.simps) simp

lemma decimalDigits_digits: "\<forall>c \<in> set (decimalDigits n). isDigit c"
proof (induction n rule: decimalDigits.induct)
  case (1 n)
  show ?case
  proof (cases "n < 10")
    case True
    then show ?thesis by (subst decimalDigits.simps) (simp add: isDigit_def)
  next
    case False
    have "n mod 10 < 10" by simp
    then have "isDigit (48 + n mod 10)" unfolding isDigit_def by linarith
    with False 1 show ?thesis by (subst decimalDigits.simps) auto
  qed
qed

lemma fromDigits_snoc: "fromDigits (ds @ [d]) = 10 * fromDigits ds + (d - 48)"
  by (simp add: fromDigits_def)

lemma fromDigits_decimalDigits: "fromDigits (decimalDigits n) = n"
proof (induction n rule: decimalDigits.induct)
  case (1 n)
  show ?case
  proof (cases "n < 10")
    case True
    then show ?thesis by (subst decimalDigits.simps) (simp add: fromDigits_def)
  next
    case False
    with 1 have "fromDigits (decimalDigits (n div 10)) = n div 10" by simp
    with False show ?thesis by (subst decimalDigits.simps) (simp add: fromDigits_snoc)
  qed
qed

lemma decimalDigits_length2: "n < 100 \<Longrightarrow> length (decimalDigits n) \<le> 2"
proof -
  assume n: "n < 100"
  show ?thesis
  proof (cases "n < 10")
    case True
    then show ?thesis by (subst decimalDigits.simps) simp
  next
    case False
    with n have "n div 10 < 10" by simp
    then have "decimalDigits (n div 10) = [48 + n div 10]" by (subst decimalDigits.simps) simp
    with False show ?thesis by (subst decimalDigits.simps) simp
  qed
qed

lemma fromDigits_zeros: "fromDigits (replicate k 48 @ ds) = fromDigits ds"
proof -
  have "foldl (\<lambda>a d. 10 * a + (d - 48)) 0 (replicate k (48::nat)) = 0"
    by (induction k) simp_all
  then show ?thesis by (simp add: fromDigits_def)
qed

lemma String_safe: "isSafeInteger n \<Longrightarrow> String n = decimalDigits n"
  by (simp add: String_def isSafeInteger_def)

lemma padStart2_digits: "isSafeInteger n \<Longrightarrow> \<forall>c \<in> set (padStart2 (String n)). isDigit c"
  using decimalDigits_digits [of n] by (auto simp: padStart2_def isDigit_def String_safe)

lemma padStart2_value: "isSafeInteger n \<Longrightarrow> fromDigits (padStart2 (String n)) = n"
  by (simp add: padStart2_def fromDigits_zeros fromDigits_decimalDigits String_safe)

lemma padStart2_length: "2 \<le> length (padStart2 s)"
  by (simp add: padStart2_def)

lemma padStart2_length2: "isSafeInteger n \<Longrightarrow> n < 100 \<Longrightarrow> length (padStart2 (String n)) = 2"
  using decimalDigits_length2 [of n] by (simp add: padStart2_def String_safe)

lemma lastDot_Some: "lastDot s = Some i \<Longrightarrow> i < length s \<and> s ! i = 46"
  by (induction s arbitrary: i) (auto split: option.splits if_splits)

lemma extnameOf_shape: "extnameOf b = [] \<or> hd (extnameOf b) = 46"
proof (cases "lastDot b")
  case None
  then show ?thesis by (simp add: extnameOf_def)
next
  case (Some i)
  from lastDot_Some [OF Some] have "hd (drop i b) = 46" by (simp add: hd_drop_conv_nth)
  with Some show ?thesis by (simp add: extnameOf_def)
qed

lemma extname_shape: "extname p = [] \<or> hd (extname p) = 46"
  using extnameOf_shape by (simp add: extname_def)

lemma nameSuffix_shape: "nameSuffix m = [] \<or> \<not> isDigit (hd (nameSuffix m))"
  using extname_shape [of "em_filePath m"]
  by (auto simp: nameSuffix_def str_def isDigit_def)

lemma plexFileName_shape:
  "plexFileName m a =
     showNameOf a @ str '' - S'' @ padStart2 (String (em_seasonNumber m))
       @ str ''E'' @ padStart2 (String (em_episodeNumber m)) @ nameSuffix m"
  by (simp add: plexFileName_def showNameOf_def nameSuffix_def Let_def)

lemma takeWhile_digits:
  assumes "\<forall>c \<in> set ds. isDigit c" and "rest = [] \<or> \<not> isDigit (hd rest)"
  shows "takeWhile isDigit (ds @ rest) = ds" and "dropWhile isDigit (ds @ rest) = rest"
proof -
  from assms(2) have r: "takeWhile isDigit rest = []" "dropWhile isDigit rest = rest"
    by (cases rest; simp)+
  from assms(1) show "takeWhile isDigit (ds @ rest) = ds"
    by (simp add: takeWhile_append2 r)
  from assms(1) show "dropWhile isDigit (ds @ rest) = rest"
    by (simp add: dropWhile_append2 r)
qed

lemma parseSE_token:
  assumes "\<forall>c \<in> set ss. isDigit c" "ss \<noteq> []" "\<forall>c \<in> set ee. isDigit c" "ee \<noteq> []"
    and "rest = [] \<or> \<not> isDigit (hd rest)"
  shows "parseSE (str ''S'' @ ss @ str ''E'' @ ee @ rest) = Some (fromDigits ss, fromDigits ee)"
proof -
  have e: "\<not> isDigit (hd (69 # ee @ rest))" by (simp add: isDigit_def)
  have "takeWhile isDigit (ss @ 69 # ee @ rest) = ss" "dropWhile isDigit (ss @ 69 # ee @ rest) = 69 # ee @ rest"
    using takeWhile_digits [OF assms(1), of "69 # ee @ rest"] e by simp_all
  moreover have "takeWhile isDigit (ee @ rest) = ee"
    using takeWhile_digits [OF assms(3) assms(5)] by simp
  ultimately show ?thesis using assms(2,4) by (simp add: parseSE_def str_def)
qed

lemma parseSE2_token:
  assumes "isDigit s1" "isDigit s2" "isDigit e1" "isDigit e2"
  shows "parseSE2 (str ''S'' @ [s1, s2] @ str ''E'' @ [e1, e2] @ rest)
           = Some (fromDigits [s1, s2], fromDigits [e1, e2])"
  using assms by (simp add: parseSE2_def str_def)

lemma length2_list: "length xs = 2 \<Longrightarrow> \<exists>a b. xs = [a, b]"
  by (cases xs; cases "tl xs"; auto)

lemma parseAfterShow_plex:
  "parseAfterShow parser (showNameOf a) (plexFileName m a) =
     parser (str ''S'' @ padStart2 (String (em_seasonNumber m))
               @ str ''E'' @ padStart2 (String (em_episodeNumber m)) @ nameSuffix m)"
  by (simp add: parseAfterShow_def plexFileName_shape startsWith_def str_def)

text \<open>
  C8, as amended. For season and episode numbers that are integers from 0 to \<open>2^53 - 1\<close>:
  the produced name is \<open><Show> - S<ss>E<ee>\<close> followed by \<open> - <Title>\<close> (when the
  sanitized title is not empty) and the extension; each number is written in decimal digits,
  zero-padded to at least two, and a number below 100 has exactly two. Reading
  \<open>S<digits>E<digits>\<close> after \<open><Show> - \<close> gives back the season and episode of the
  match; the two-digit reading does so when both numbers are below 100.
\<close>

theorem plexFileName_roundtrip:
  assumes "isSafeInteger (em_seasonNumber m)" and "isSafeInteger (em_episodeNumber m)"
  shows "plexFileName m a =
     showNameOf a @ str '' - S'' @ padStart2 (String (em_seasonNumber m))
       @ str ''E'' @ padStart2 (String (em_episodeNumber m)) @ nameSuffix m
   \<and> nameSuffix m =
       (if sanitizeFileName (em_episodeTitle m) \<noteq> []
        then str '' - '' @ sanitizeFileName (em_episodeTitle m) @ extname (em_filePath m)
        else extname (em_filePath m))
   \<and> (\<forall>c \<in> set (padStart2 (String (em_seasonNumber m))). isDigit c)
   \<and> (\<forall>c \<in> set (padStart2 (String (em_episodeNumber m))). isDigit c)
   \<and> 2 \<le> length (padStart2 (String (em_seasonNumber m)))
   \<and> 2 \<le> length (padStart2 (String (em_episodeNumber m)))
   \<and> (em_seasonNumber m < 100 \<longrightarrow> length (padStart2 (String (em_seasonNumber m))) = 2)
   \<and> (em_episodeNumber m < 100 \<longrightarrow> length (padStart2 (String (em_episodeNumber m))) = 2)
   \<and> parseAfterShow parseSE (showNameOf a) (plexFileName m a)
        = Some (em_seasonNumber m, em_episodeNumber m)
   \<and> (em_seasonNumber m < 100 \<and> em_episodeNumber m < 100 \<longrightarrow>
        parseAfterShow parseSE2 (showNameOf a) (plexFileName m a)
          = Some (em_seasonNumber m, em_episodeNumber m))"
proof (intro conjI impI)
  let ?ss = "padStart2 (String (em_seasonNumber m))"
  let ?ee = "padStart2 (String (em_episodeNumber m))"
  note ds = padStart2_digits [OF assms(1)] and de = padStart2_digits [OF assms(2)]
  show "plexFileName m a = showNameOf a @ str '' - S'' @ ?ss @ str ''E'' @ ?ee @ nameSuffix m"
    by (rule plexFileName_shape)
  show "nameSuffix m =
       (if sanitizeFileName (em_episodeTitle m) \<noteq> []
        then str '' - '' @ sanitizeFileName (em_episodeTitle m) @ extname (em_filePath m)
        else extname (em_filePath m))"
    by (rule nameSuffix_def)
  show "\<forall>c \<in> set ?ss. isDigit c" by (rule ds)
  show "\<forall>c \<in> set ?ee. isDigit c" by (rule de)
  show "2 \<le> length ?ss" "2 \<le> length ?ee" by (rule padStart2_length)+
  have ne: "?ss \<noteq> []" "?ee \<noteq> []"
    using padStart2_length [of "String (em_seasonNumber m)"]
      padStart2_length [of "String (em_episodeNumber m)"] by auto
  show "parseAfterShow parseSE (showNameOf a) (plexFileName m a)
          = Some (em_seasonNumber m, em_episodeNumber m)"
    using parseSE_token [OF ds ne(1) de ne(2) nameSuffix_shape, of m]
    by (simp add: parseAfterShow_plex padStart2_value assms)
next
  assume "em_seasonNumber m < 100"
  then show "length (padStart2 (String (em_seasonNumber m))) = 2"
    using assms(1) by (simp add: padStart2_length2)
next
  assume "em_episodeNumber m < 100"
  then show "length (padStart2 (String (em_episodeNumber m))) = 2"
    using assms(2) by (simp add: padStart2_length2)
next
  let ?ss = "padStart2 (String (em_seasonNumber m))"
  let ?ee = "padStart2 (String (em_episodeNumber m))"
  assume small: "em_seasonNumber m < 100 \<and> em_episodeNumber m < 100"
  then have l: "length ?ss = 2" "length ?ee = 2" using assms by (simp_all add: padStart2_length2)
  from l obtain s1 s2 e1 e2 where eq: "?ss = [s1, s2]" "?ee = [e1, e2]"
    using length2_list by blast
  have d: "isDigit s1" "isDigit s2" "isDigit e1" "isDigit e2"
    using padStart2_digits [OF assms(1)] padStart2_digits [OF assms(2)]
    by (simp_all add: eq)
  have "fromDigits [s1, s2] = em_seasonNumber m" "fromDigits [e1, e2] = em_episodeNumber m"
    using padStart2_value [OF assms(1)] padStart2_value [OF assms(2)]
    by (simp_all add: eq)
  then show "parseAfterShow parseSE2 (showNameOf a) (plexFileName m a)
          = Some (em_seasonNumber m, em_episodeNumber m)"
    using parseSE2_token [OF d, of "nameSuffix m"]
    by (simp add: parseAfterShow_plex eq)
qed

lemmas naming_eval =
  plexFileName_def matchX_def animeX_def sanitizeFileName_def trim_def isWhiteSpace_def
  invalidChar_def str_def String_def decimalDigits.simps padStart2_def extname_def extnameOf_def
  parseAfterShow_def parseSE2_def parseSE_def showNameOf_def startsWith_def isDigit_def
  fromDigits_def nameSuffix_def

theorem plexFileName_roundtrip_witness:
  "isSafeInteger (em_seasonNumber (matchX 1 2)) \<and> isSafeInteger (em_episodeNumber (matchX 1 2))
   \<and> em_seasonNumber (matchX 1 2) < 100 \<and> em_episodeNumber (matchX 1 2) < 100
   \<and> plexFileName (matchX 1 2) animeX = str ''Sho X - S01E02 - T.mkv''
   \<and> length (padStart2 (String (em_seasonNumber (matchX 1 2)))) = 2
   \<and> length (padStart2 (String (em_episodeNumber (matchX 1 2)))) = 2
   \<and> parseAfterShow parseSE2 (showNameOf animeX) (str ''Sho X - S01E02 - T.mkv'') = Some (1, 2)"
proof -
  have n: "plexFileName (matchX 1 2) animeX = str ''Sho X - S01E02 - T.mkv''"
    by (simp add: naming_eval)
  have s: "isSafeInteger (em_seasonNumber (matchX 1 2))" "isSafeInteger (em_episodeNumber (matchX 1 2))"
    by (simp_all add: matchX_def isSafeInteger_def)
  have h: "em_seasonNumber (matchX 1 2) < 100" "em_episodeNumber (matchX 1 2) < 100"
    by (simp_all add: matchX_def)
  note r = plexFileName_roundtrip [OF s, of animeX]
  from r h have l: "length (padStart2 (String (em_seasonNumber (matchX 1 2)))) = 2"
    "length (padStart2 (String (em_episodeNumber (matchX 1 2)))) = 2"
    by blast+
  from r h
  have "parseAfterShow parseSE2 (showNameOf animeX) (plexFileName (matchX 1 2) animeX)
          = Some (em_seasonNumber (matchX 1 2), em_episodeNumber (matchX 1 2))"
    by blast
  then have "parseAfterShow parseSE2 (showNameOf animeX) (str ''Sho X - S01E02 - T.mkv'') = Some (1, 2)"
    unfolding n by (simp add: matchX_def)
  with n h s l show ?thesis by blast
qed

text \<open>
  C8 as stated fails in three ways. Episode 100: the name carries the three digits
  \<open>100\<close>, and the two-digit reading of the token yields episode 10. A show named
  \<open>A - S09E09\<close>: the first token of the basename is the show's own, so reading the token
  from the basename yields season 9, episode 9 for the match of season 1, episode 2.
  Episode \<open>10^21\<close>: the number is printed as \<open>1e+21\<close>, and the token reads as episode 1.
\<close>

theorem plexFileName_two_digit_counterexample:
  "plexFileName (matchX 1 100) animeX = str ''Sho X - S01E100 - T.mkv''
   \<and> padStart2 (String (em_episodeNumber (matchX 1 100))) = str ''100''
   \<and> parseAfterShow parseSE2 (showNameOf animeX) (plexFileName (matchX 1 100) animeX)
        = Some (1, 10)
   \<and> (1, 10) \<noteq> (em_seasonNumber (matchX 1 100), em_episodeNumber (matchX 1 100))
   \<and> plexFileName (matchX 1 2) animeT = str ''A - S09E09 - S01E02 - T.mkv''
   \<and> firstToken parseSE2 (plexFileName (matchX 1 2) animeT) = Some (9, 9)
   \<and> firstToken parseSE (plexFileName (matchX 1 2) animeT) = Some (9, 9)
   \<and> (9, 9) \<noteq> (em_seasonNumber (matchX 1 2), em_episodeNumber (matchX 1 2))
   \<and> plexFileName (matchX 1 1000000000000000000000) animeX = str ''Sho X - S01E1e+21 - T.mkv''
   \<and> parseAfterShow parseSE (showNameOf animeX) (plexFileName (matchX 1 1000000000000000000000) animeX)
        = Some (1, 1)
   \<and> (1, 1) \<noteq> (em_seasonNumber (matchX 1 1000000000000000000000),
                  em_episodeNumber (matchX 1 1000000000000000000000))"
proof -
  have a: "plexFileName (matchX 1 100) animeX = str ''Sho X - S01E100 - T.mkv''
   \<and> padStart2 (String (em_episodeNumber (matchX 1 100))) = str ''100''
   \<and> parseAfterShow parseSE2 (showNameOf animeX) (plexFileName (matchX 1 100) animeX)
        = Some (1, 10)
   \<and> (1, 10) \<noteq> (em_seasonNumber (matchX 1 100), em_episodeNumber (matchX 1 100))"
    by (simp add: naming_eval)
  have b: "plexFileName (matchX 1 2) animeT = str ''A - S09E09 - S01E02 - T.mkv''"
    by (simp add: naming_eval animeT_def)
  have c: "firstToken parseSE2 (str ''A - S09E09 - S01E02 - T.mkv'') = Some (9, 9)"
    "firstToken parseSE (str ''A - S09E09 - S01E02 - T.mkv'') = Some (9, 9)"
    by (simp_all add: str_def parseSE2_def parseSE_def isDigit_def fromDigits_def)
  have d: "(9, 9) \<noteq> (em_seasonNumber (matchX 1 2), em_episodeNumber (matchX 1 2))"
    by (simp add: matchX_def)
  have e: "String 1000000000000000000000 = str ''1e+21''"
    by (simp add: String_def exponentNotation_def Let_def decimalDigits.simps str_def)
  have f: "plexFileName (matchX 1 1000000000000000000000) animeX = str ''Sho X - S01E1e+21 - T.mkv''"
    by (simp add: plexFileName_def matchX_def e, simp add: naming_eval)
  have g: "parseAfterShow parseSE (showNameOf animeX) (str ''Sho X - S01E1e+21 - T.mkv'') = Some (1, 1)"
    by (simp add: naming_eval)
  have h: "(1, 1) \<noteq> (em_seasonNumber (matchX 1 1000000000000000000000),
                  em_episodeNumber (matchX 1 1000000000000000000000))"
    by (simp add: matchX_def)
  note c' = c [folded b] and g' = g [folded f]
  from a b c' d f g' h show ?thesis by blast
qed

lemma renamedRecord_X:
  "rf_newPath (renamedRecord (matchX 2 5) animeX episodesDirX [str ''root'']) = destX"
  by (simp add: renamedRecord_def Let_def join_def episodesDirX_def destX_def naming_eval)

theorem copyEpisodeToWorkDir_idempotent_witness:
  "copyEpisodeToWorkDir (matchX 2 5) animeX episodesDirX [str ''root''] False fsX
     = Inr (fsX(destX \<mapsto> [1, 2, 3]), renamedRecord (matchX 2 5) animeX episodesDirX [str ''root''])
   \<and> copyEpisodeToWorkDir (matchX 2 5) animeX episodesDirX [str ''root''] False
         (fsX(destX \<mapsto> [1, 2, 3]))
     = Inr (fsX(destX \<mapsto> [1, 2, 3]), renamedRecord (matchX 2 5) animeX episodesDirX [str ''root''])
   \<and> destX \<in> dom (fsX(destX \<mapsto> [1, 2, 3]))
   \<and> copyMatches [matchX 2 5] animeX episodesDirX [str ''root''] False (fsX(destX \<mapsto> [1, 2, 3]), [])
     = Inr (fsX(destX \<mapsto> [1, 2, 3]), [renamedRecord (matchX 2 5) animeX episodesDirX [str ''root'']])"
proof -
  let ?r = "renamedRecord (matchX 2 5) animeX episodesDirX [str ''root'']"
  let ?fs1 = "fsX(destX \<mapsto> [1, 2, 3])"
  have src: "fsX (em_filePath (matchX 2 5)) = Some [1, 2, 3]"
    by (simp add: fsX_def matchX_def)
  have fresh: "destX \<notin> dom fsX"
    by (simp add: fsX_def destX_def str_def)
  have first: "copyEpisodeToWorkDir (matchX 2 5) animeX episodesDirX [str ''root''] False fsX
                 = Inr (?fs1, ?r)"
    using src fresh by (simp add: copyEpisodeToWorkDir_def Let_def renamedRecord_X)
  have loop: "copyMatches [matchX 2 5] animeX episodesDirX [str ''root''] False (fsX, [])
                 = Inr (?fs1, [?r])"
    by (simp add: first)
  note inst = copyEpisodeToWorkDir_idempotent
    [of "matchX 2 5" animeX episodesDirX "[str ''root'']" fsX False ?fs1 ?r "[matchX 2 5]" ?fs1 "[?r]"]
  from inst first have second:
    "copyEpisodeToWorkDir (matchX 2 5) animeX episodesDirX [str ''root''] False ?fs1 = Inr (?fs1, ?r)"
    by blast
  from inst loop have again:
    "copyMatches [matchX 2 5] animeX episodesDirX [str ''root''] False (?fs1, []) = Inr (?fs1, [?r])"
    by blast
  have "destX \<in> dom ?fs1" by simp
  with first second again show ?thesis by blast
qed


section \<open>The episode window\<close>

lemmas listing_eval =
  startsWith_def str_def toLowerCase_def lowerCaseOf_def extnameOf_def VIDEO_EXTENSIONS_def
  join_def







lemma sf_size_videoFile: "sf_size (videoFile n s) = s"
  by (simp add: videoFile_def)










section \<open>The detection result partitions the listed video files\<close>

lemma clusterBySize_partition:
  "length (episodes (clusterBySize vf)) + length (nonEpisodes (clusterBySize vf)) = length vf
   \<and> set (episodes (clusterBySize vf)) \<union> set (nonEpisodes (clusterBySize vf)) = set vf
   \<and> set (episodes (clusterBySize vf)) \<inter> set (nonEpisodes (clusterBySize vf)) = {}"
proof -
  consider "length vf = 0" | "length vf = 1 \<or> length vf = 2" | "length vf > 2" by linarith
  then show ?thesis
  proof cases
    case 1
    then show ?thesis by (simp add: clusterBySize_def)
  next
    case 2
    then show ?thesis by (auto simp: clusterBySize_def)
  next
    case 3
    have "length (filter P vf) + length (filter (Not \<circ> P) vf) = length vf" for P
      using sum_length_filter_compl [of P vf] by (simp add: o_def)
    with 3 show ?thesis by (auto simp: clusterBySize_def Let_def)
  qed
qed

lemma detectEpisodeFiles_partition:
  "length (episodes (detectEpisodeFiles folderPath entries))
     + length (nonEpisodes (detectEpisodeFiles folderPath entries))
     = length (listVideoFilesRecursive folderPath entries)
   \<and> set (episodes (detectEpisodeFiles folderPath entries))
       \<union> set (nonEpisodes (detectEpisodeFiles folderPath entries))
     = set (listVideoFilesRecursive folderPath entries)
   \<and> set (episodes (detectEpisodeFiles folderPath entries))
       \<inter> set (nonEpisodes (detectEpisodeFiles folderPath entries)) = {}"
  unfolding detectEpisodeFiles_def by (rule clusterBySize_partition)

text \<open>
  C3. The claim is that the episodes and non-episodes together are exactly the video files
  under the folder, the walk leaving out only the contents of underscore directories. On a
  folder that holds the regular file \<open>_op.mkv\<close> the listing drops that file: it is a video
  file under the folder, and it is in neither part of the result.
\<close>

theorem detectEpisodeFiles_drops_underscore_file:
  "videoFilesUnder [str ''disc''] discTreeU
     = [videoFile (str ''ep1.mkv'') 1000, videoFile (str ''_op.mkv'') 700]
   \<and> listVideoFilesRecursive [str ''disc''] discTreeU = [videoFile (str ''ep1.mkv'') 1000]
   \<and> episodes (detectEpisodeFiles [str ''disc''] discTreeU) = [videoFile (str ''ep1.mkv'') 1000]
   \<and> nonEpisodes (detectEpisodeFiles [str ''disc''] discTreeU) = []"
  by (simp add: detectEpisodeFiles_def discTreeU_def videoFile_def listing_eval clusterBySize_def)

section \<open>Bins and the largest bin\<close>


lemma binsPush_notin:
  "i \<notin> fst ` set bins \<Longrightarrow> binsPush i x bins = bins @ [(i, [x])]"
  by (induction bins) auto

lemma binsPush_in:
  "distinct (map fst bins) \<Longrightarrow> i \<in> fst ` set bins \<Longrightarrow>
     binsPush i x bins = map (\<lambda>(k, fs). if k = i then (k, fs @ [x]) else (k, fs)) bins"
proof (induction bins)
  case Nil
  then show ?case by simp
next
  case (Cons p bins)
  obtain j fs where p: "p = (j, fs)" by (cases p)
  show ?case
  proof (cases "i = j")
    case True
    with Cons.prems p have "i \<notin> fst ` set bins" by auto
    then have "map (\<lambda>(k, fs). if k = i then (k, fs @ [x]) else (k, fs)) bins = bins"
      by (induction bins) auto
    with True p show ?thesis by simp
  next
    case False
    with Cons p show ?thesis by auto
  qed
qed

lemma buildBins_snoc:
  "buildBins m w (xs @ [x]) = binsPush (binIndex m w x) x (buildBins m w xs)"
  by (simp add: buildBins_def)

lemma buildBins_invariant:
  assumes "sorted (map (binIndex m w) xs)"
  shows "distinct (map fst (buildBins m w xs))
       \<and> sorted (map fst (buildBins m w xs))
       \<and> fst ` set (buildBins m w xs) = binIndex m w ` set xs
       \<and> (\<forall>(k, fs) \<in> set (buildBins m w xs). fs = filter (\<lambda>f. binIndex m w f = k) xs)"
  using assms
proof (induction xs rule: rev_induct)
  case Nil
  show ?case by (simp add: buildBins_def)
next
  case (snoc x xs)
  let ?b = "binIndex m w"
  let ?bins = "buildBins m w xs"
  from snoc.prems have sxs: "sorted (map ?b xs)" and le: "\<forall>y \<in> set xs. ?b y \<le> ?b x"
    by (auto simp: sorted_append)
  from snoc.IH [OF sxs] have
    d: "distinct (map fst ?bins)" and s: "sorted (map fst ?bins)" and
    keys: "fst ` set ?bins = ?b ` set xs" and
    vals: "\<forall>(k, fs) \<in> set ?bins. fs = filter (\<lambda>f. ?b f = k) xs"
    by auto
  show ?case
  proof (cases "?b x \<in> fst ` set ?bins")
    case True
    have eq: "buildBins m w (xs @ [x])
                = map (\<lambda>(k, fs). if k = ?b x then (k, fs @ [x]) else (k, fs)) ?bins"
      unfolding buildBins_snoc by (rule binsPush_in [OF d True])
    have k: "map fst (buildBins m w (xs @ [x])) = map fst ?bins"
      unfolding eq by (induction ?bins) auto
    have "fst ` set (buildBins m w (xs @ [x])) = fst ` set ?bins"
      using k by (metis list.set_map)
    with keys True have k2: "fst ` set (buildBins m w (xs @ [x])) = ?b ` set (xs @ [x])"
      by auto
    have "\<forall>(k, fs) \<in> set (buildBins m w (xs @ [x])). fs = filter (\<lambda>f. ?b f = k) (xs @ [x])"
      unfolding eq
    proof (clarify)
      fix k fs
      assume "(k, fs) \<in> set (map (\<lambda>(k, fs). if k = ?b x then (k, fs @ [x]) else (k, fs)) ?bins)"
      then obtain a b where ab: "(a, b) \<in> set ?bins"
        and e: "(k, fs) = (if a = ?b x then (a, b @ [x]) else (a, b))" by auto
      from vals ab have b: "b = filter (\<lambda>f. ?b f = a) xs" by auto
      show "fs = filter (\<lambda>f. ?b f = k) (xs @ [x])"
        using e b by (cases "a = ?b x") auto
    qed
    with k k2 d s show ?thesis by simp
  next
    case False
    have eq: "buildBins m w (xs @ [x]) = ?bins @ [(?b x, [x])]"
      unfolding buildBins_snoc by (rule binsPush_notin [OF False])
    from False keys have "?b x \<notin> ?b ` set xs" by simp
    then have none: "filter (\<lambda>f. ?b f = ?b x) xs = []"
      unfolding filter_empty_conv by (metis imageI)
    have "distinct (map fst (buildBins m w (xs @ [x])))"
      unfolding eq using d False by (simp add: image_iff)
    moreover have "sorted (map fst (buildBins m w (xs @ [x])))"
      unfolding eq using s keys le by (auto simp: sorted_append)
    moreover have "fst ` set (buildBins m w (xs @ [x])) = ?b ` set (xs @ [x])"
      unfolding eq using keys by auto
    moreover have "\<forall>(k, fs) \<in> set (buildBins m w (xs @ [x])). fs = filter (\<lambda>f. ?b f = k) (xs @ [x])"
    proof -
      have "\<forall>(k, fs) \<in> set ?bins. fs = filter (\<lambda>f. ?b f = k) (xs @ [x])"
      proof (clarify)
        fix k fs assume m: "(k, fs) \<in> set ?bins"
        then have "k \<in> fst ` set ?bins" by force
        with False have "?b x \<noteq> k" by auto
        with vals m show "fs = filter (\<lambda>f. ?b f = k) (xs @ [x])" by auto
      qed
      then show ?thesis unfolding eq using none by auto
    qed
    ultimately show ?thesis by blast
  qed
qed

lemma first_longest:
  fixes vs :: "'a list list"
  defines "step \<equiv> (\<lambda>largestBin binFiles. if length binFiles > length largestBin then binFiles else largestBin)"
  shows "(foldl step acc vs = acc \<and> (\<forall>v \<in> set vs. length v \<le> length acc))
       \<or> (\<exists>i < length vs. foldl step acc vs = vs ! i \<and> length acc < length (vs ! i)
            \<and> (\<forall>j < i. length (vs ! j) < length (vs ! i))
            \<and> (\<forall>v \<in> set vs. length v \<le> length (vs ! i)))"
proof (induction vs rule: rev_induct)
  case Nil
  show ?case by simp
next
  case (snoc v vs)
  let ?r = "foldl step acc vs"
  have bound: "\<forall>u \<in> set vs. length u \<le> length ?r" and acc: "length acc \<le> length ?r"
    using snoc.IH by auto
  show ?case
  proof (cases "length v > length ?r")
    case True
    then have r: "foldl step acc (vs @ [v]) = v" by (simp add: step_def)
    have "\<forall>j < length vs. length ((vs @ [v]) ! j) < length v"
      using bound True by (auto simp: nth_append) (metis le_less_trans nth_mem)
    then have "length vs < length (vs @ [v]) \<and> foldl step acc (vs @ [v]) = (vs @ [v]) ! length vs
        \<and> length acc < length ((vs @ [v]) ! length vs)
        \<and> (\<forall>j < length vs. length ((vs @ [v]) ! j) < length ((vs @ [v]) ! length vs))
        \<and> (\<forall>u \<in> set (vs @ [v]). length u \<le> length ((vs @ [v]) ! length vs))"
      using r acc True bound by auto
    then show ?thesis by blast
  next
    case False
    then have r: "foldl step acc (vs @ [v]) = ?r" by (simp add: step_def)
    from snoc.IH show ?thesis
    proof
      assume "?r = acc \<and> (\<forall>v \<in> set vs. length v \<le> length acc)"
      with False r show ?thesis by auto
    next
      assume "\<exists>i < length vs. ?r = vs ! i \<and> length acc < length (vs ! i)
            \<and> (\<forall>j < i. length (vs ! j) < length (vs ! i))
            \<and> (\<forall>v \<in> set vs. length v \<le> length (vs ! i))"
      then obtain i where i: "i < length vs" "?r = vs ! i" "length acc < length (vs ! i)"
        "\<forall>j < i. length (vs ! j) < length (vs ! i)" "\<forall>v \<in> set vs. length v \<le> length (vs ! i)"
        by blast
      have "i < length (vs @ [v]) \<and> foldl step acc (vs @ [v]) = (vs @ [v]) ! i
          \<and> length acc < length ((vs @ [v]) ! i)
          \<and> (\<forall>j < i. length ((vs @ [v]) ! j) < length ((vs @ [v]) ! i))
          \<and> (\<forall>u \<in> set (vs @ [v]). length u \<le> length ((vs @ [v]) ! i))"
        using i r False by (auto simp: nth_append)
      then show ?thesis by blast
    qed
  qed
qed

section \<open>The primary cluster\<close>

lemma sorted_first_Min:
  fixes ys :: "real list"
  assumes "sorted ys" "ys \<noteq> []"
  shows "ys ! 0 = Min (set ys)"
proof -
  from assms obtain a as where ys: "ys = a # as" by (cases ys) auto
  with assms(1) have "\<forall>y \<in> set ys. a \<le> y" by auto
  then have "Min (set ys) = a" using ys by (intro Min_eqI) auto
  with ys show ?thesis by simp
qed

lemma sorted_last_Max:
  fixes ys :: "real list"
  assumes "sorted ys" "ys \<noteq> []"
  shows "ys ! (length ys - 1) = Max (set ys)"
proof -
  have "\<forall>y \<in> set ys. y \<le> ys ! (length ys - 1)"
  proof
    fix y assume "y \<in> set ys"
    then obtain i where i: "i < length ys" "ys ! i = y" by (auto simp: in_set_conv_nth)
    then have "ys ! i \<le> ys ! (length ys - 1)"
      using assms(1) by (intro sorted_nth_mono) auto
    with i show "y \<le> ys ! (length ys - 1)" by simp
  qed
  moreover have "ys ! (length ys - 1) \<in> set ys" using assms(2) by simp
  ultimately have "Max (set ys) = ys ! (length ys - 1)" by (intro Max_eqI) auto
  then show ?thesis by simp
qed

lemma sortedBySize_props:
  "mset (sortedBySize vf) = mset vf" "set (sortedBySize vf) = set vf"
  "length (sortedBySize vf) = length vf" "sorted (map sf_size (sortedBySize vf))"
  by (simp_all add: sortedBySize_def)

lemma sorted_real_sizes: "sorted (map (\<lambda>f. real (sf_size f)) (sortedBySize vf))"
proof -
  have "sorted (map real (map sf_size (sortedBySize vf)))"
    using sortedBySize_props(4) [of vf] by (simp add: sorted_map sorted_wrt_mono_rel [of _ "\<lambda>x y. sf_size x \<le> sf_size y"])
  then show ?thesis by (simp add: o_def)
qed

lemma binWidthOf_pos: "0 < binWidthOf r"
  by (simp add: binWidthOf_def max_def)

lemma binIndex_mono:
  assumes "0 < w" "sf_size f \<le> sf_size g"
  shows "binIndex m w f \<le> binIndex m w g"
  unfolding binIndex_def fdiv_def using assms
  by (intro floor_mono fl_monotone divide_right_mono) auto

lemma sorted_binIndex:
  assumes "0 < w"
  shows "sorted (map (binIndex m w) (sortedBySize vf))"
proof -
  have "sorted_wrt (\<lambda>x y. sf_size x \<le> sf_size y) (sortedBySize vf)"
    using sortedBySize_props(4) [of vf] by (simp add: sorted_map)
  then have "sorted_wrt (\<lambda>x y. binIndex m w x \<le> binIndex m w y) (sortedBySize vf)"
    by (rule sorted_wrt_mono_rel [rotated]) (use assms binIndex_mono in blast)
  then show ?thesis by (simp add: sorted_map)
qed

lemma filter_length_perm:
  "mset xs = mset ys \<Longrightarrow> length (filter P xs) = length (filter P ys)"
  by (metis mset_filter size_mset)

lemma sort_perm:
  fixes xs ys :: "real list"
  shows "mset xs = mset ys \<Longrightarrow> sort xs = sort ys"
  by (metis mset_sort properties_for_sort sorted_sort)

lemma medianOf_doubleMedian:
  assumes "xs \<noteq> []"
  shows "medianOf (sort xs) = doubleMedian xs"
proof -
  have "length (sort xs) = length xs" by simp
  with assms have "sort xs \<noteq> []" by (metis length_0_conv)
  then show ?thesis
    by (auto simp: medianOf_def doubleMedian_def Let_def even_iff_mod_2_eq_zero)
qed

lemma mean_of_sizes:
  fixes i j :: nat
  assumes "i < 2 ^ 52" and "j < 2 ^ 52"
  shows "fdiv (fadd (real i) (real j)) 2 = (real i + real j) / 2"
proof -
  have "i + j < 2 ^ 53" using assms by simp
  then have "fadd (real i) (real j) = real (i + j)"
    unfolding fadd_def using fl_of_nat [of "i + j"] by simp
  moreover have "fl (real (i + j) / 2 ^ 1) = real (i + j) / 2 ^ 1"
    using \<open>i + j < 2 ^ 53\<close> by (rule fl_dyadic)
  ultimately show ?thesis by (simp add: fdiv_def)
qed

lemma doubleMedian_specMedian:
  assumes "\<forall>f \<in> set fs. sf_size f < 2 ^ 52" and "fs \<noteq> []"
  shows "doubleMedian (map (\<lambda>f. real (sf_size f)) fs) = specMedian (map (\<lambda>f. real (sf_size f)) fs)"
proof -
  let ?ss = "sort (map (\<lambda>f. real (sf_size f)) fs)"
  have n: "0 < length ?ss" using assms(2) by simp
  have el: "\<exists>i. ?ss ! k = real i \<and> i < 2 ^ 52" if "k < length ?ss" for k
  proof -
    from that have "?ss ! k \<in> set ?ss" by (rule nth_mem)
    then have "?ss ! k \<in> (\<lambda>f. real (sf_size f)) ` set fs" by simp
    with assms(1) show ?thesis by auto
  qed
  have a: "length ?ss div 2 - 1 < length ?ss" "length ?ss div 2 < length ?ss" using n by linarith+
  from el [OF a(1)] el [OF a(2)] obtain i j where
    "?ss ! (length ?ss div 2 - 1) = real i" "i < 2 ^ 52" "?ss ! (length ?ss div 2) = real j" "j < 2 ^ 52"
    by blast
  then have "fdiv (fadd (?ss ! (length ?ss div 2 - 1)) (?ss ! (length ?ss div 2))) 2
               = (?ss ! (length ?ss div 2 - 1) + ?ss ! (length ?ss div 2)) / 2"
    by (simp only: mean_of_sizes)
  then show ?thesis by (simp add: doubleMedian_def specMedian_def Let_def)
qed

lemma largestBin_first_max:
  fixes m w :: real and vf :: "SourceFileInfo list"
  assumes w: "0 < w" and ne: "vf \<noteq> []"
  defines "xs \<equiv> sortedBySize vf"
  defines "b \<equiv> binIndex m w"
  shows "\<exists>k. largestBinOf (buildBins m w xs) = filter (\<lambda>f. b f = k) xs
           \<and> filter (\<lambda>f. b f = k) xs \<noteq> []
           \<and> (\<forall>j. length (filter (\<lambda>f. b f = j) xs) \<le> length (filter (\<lambda>f. b f = k) xs))
           \<and> (\<forall>j < k. length (filter (\<lambda>f. b f = j) xs) < length (filter (\<lambda>f. b f = k) xs))"
proof -
  let ?bins = "buildBins m w xs"
  let ?vs = "map snd ?bins"
  let ?cnt = "\<lambda>j. filter (\<lambda>f. b f = j) xs"
  have srt: "sorted (map (binIndex m w) xs)" unfolding xs_def by (rule sorted_binIndex [OF w])
  from buildBins_invariant [OF srt] have
    d: "distinct (map fst ?bins)" and s: "sorted (map fst ?bins)" and
    keys: "fst ` set ?bins = b ` set xs" and
    vals: "\<forall>(k, fs) \<in> set ?bins. fs = ?cnt k"
    unfolding b_def by auto
  have xne: "xs \<noteq> []" using ne sortedBySize_props(3) [of vf] unfolding xs_def by (metis length_0_conv)
  have entry: "snd (?bins ! i) = ?cnt (fst (?bins ! i))" if "i < length ?bins" for i
  proof -
    from that have "?bins ! i \<in> set ?bins" by simp
    with vals show ?thesis by (cases "?bins ! i") auto
  qed
  have key_in: "?cnt j \<noteq> []" if "j \<in> fst ` set ?bins" for j
  proof -
    from that keys obtain f where "f \<in> set xs" "b f = j" by auto
    then show ?thesis by (auto simp: filter_empty_conv)
  qed
  have key_out: "?cnt j = []" if "j \<notin> fst ` set ?bins" for j
  proof -
    from that keys have "j \<notin> b ` set xs" by simp
    then show ?thesis unfolding filter_empty_conv by (metis imageI)
  qed
  from xne keys have bne: "?bins \<noteq> []" by auto
  then have l0: "0 < length ?bins" by simp
  have v0: "?vs ! 0 = ?cnt (fst (?bins ! 0))" using entry [OF l0] l0 by simp
  have "fst (?bins ! 0) \<in> fst ` set ?bins" using l0 by (metis imageI nth_mem)
  then have "?vs ! 0 \<noteq> []" using key_in v0 by simp
  moreover have "?vs ! 0 \<in> set ?vs" using l0 by (metis length_map nth_mem)
  ultimately have nonempty: "\<exists>v \<in> set ?vs. length v > length ([] :: SourceFileInfo list)"
    by (metis length_greater_0_conv list.size(3))
  from first_longest [of "[]" ?vs] nonempty
  obtain i where i: "i < length ?vs" "largestBinOf ?bins = ?vs ! i"
    "\<forall>j < i. length (?vs ! j) < length (?vs ! i)" "\<forall>v \<in> set ?vs. length v \<le> length (?vs ! i)"
    "0 < length (?vs ! i)"
    unfolding largestBinOf_def by (auto simp: not_le [symmetric] simp del: not_le)
  define k where "k = fst (?bins ! i)"
  from i(1) have il: "i < length ?bins" by simp
  have r: "?vs ! i = ?cnt k" using entry [OF il] il by (simp add: k_def)
  have most: "length (?cnt j) \<le> length (?cnt k)" for j
  proof (cases "j \<in> fst ` set ?bins")
    case True
    then obtain i' where i': "i' < length ?bins" "fst (?bins ! i') = j"
      by (auto simp: in_set_conv_nth)
    then have "?vs ! i' = ?cnt j" using entry [OF i'(1)] by simp
    moreover from i'(1) have "?vs ! i' \<in> set ?vs" by (metis length_map nth_mem)
    ultimately show ?thesis using i(4) r by auto
  next
    case False
    then show ?thesis by (simp add: key_out)
  qed
  have ties: "length (?cnt j) < length (?cnt k)" if "j < k" for j
  proof (cases "j \<in> fst ` set ?bins")
    case True
    then obtain i' where i': "i' < length ?bins" "fst (?bins ! i') = j"
      by (auto simp: in_set_conv_nth)
    have "i' < i"
    proof (rule ccontr)
      assume "\<not> i' < i"
      then have "i \<le> i'" by simp
      then have "map fst ?bins ! i \<le> map fst ?bins ! i'"
        using s i'(1) by (intro sorted_nth_mono) auto
      with i'(1) il i'(2) have "k \<le> j" by (simp add: k_def)
      with that show False by simp
    qed
    moreover have "?vs ! i' = ?cnt j" using entry [OF i'(1)] i' by simp
    ultimately show ?thesis using i(3) r by auto
  next
    case False
    then have "?cnt j = []" by (rule key_out)
    with i(5) r show ?thesis by simp
  qed
  from i(5) r have "?cnt k \<noteq> []" by auto
  with i(2) r most ties show ?thesis by auto
qed

lemma clusterBySize_primary_cluster:
  assumes n: "3 \<le> length vf"
  shows "\<exists>k. (\<forall>j. length (doubleBinFiles vf j) \<le> length (doubleBinFiles vf k))
           \<and> (\<forall>j < k. length (doubleBinFiles vf j) < length (doubleBinFiles vf k))
           \<and> doubleBinFiles vf k \<noteq> []
           \<and> clusterMedianSize (clusterBySize vf)
                = doubleMedian (map (\<lambda>f. real (sf_size f)) (doubleBinFiles vf k))"
proof -
  define xs where "xs = sortedBySize vf"
  define sizes where "sizes = map (\<lambda>f. real (sf_size f)) xs"
  define m where "m = sizes ! 0"
  define w where "w = binWidthOf (sizes ! (length sizes - 1) - m)"
  from n have ne: "vf \<noteq> []" by auto
  have perm: "mset xs = mset vf" unfolding xs_def by (rule sortedBySize_props)
  have "set xs = set vf" unfolding xs_def by (rule sortedBySize_props)
  then have ssz: "set sizes = sizesOf vf" by (simp add: sizes_def sizesOf_def)
  have sne: "sizes \<noteq> []" using ne sortedBySize_props(3) [of vf]
    unfolding sizes_def xs_def by (metis length_0_conv length_map)
  have srt: "sorted sizes" unfolding sizes_def xs_def by (rule sorted_real_sizes)
  have m_min: "m = Min (sizesOf vf)"
    unfolding m_def using sorted_first_Min [OF srt sne] ssz by simp
  have w_spec: "w = doubleBinWidth vf"
    unfolding w_def doubleBinWidth_def binWidthOf_def
    using sorted_last_Max [OF srt sne] ssz m_min by simp
  have wpos: "0 < w" unfolding w_def by (rule binWidthOf_pos)
  have b_spec: "binIndex m w = doubleBin vf"
    by (rule ext) (simp add: binIndex_def doubleBin_def m_min w_spec)
  from largestBin_first_max [OF wpos ne, of m] obtain k where k:
    "largestBinOf (buildBins m w xs) = filter (\<lambda>f. doubleBin vf f = k) xs"
    "filter (\<lambda>f. doubleBin vf f = k) xs \<noteq> []"
    "\<forall>j. length (filter (\<lambda>f. doubleBin vf f = j) xs) \<le> length (filter (\<lambda>f. doubleBin vf f = k) xs)"
    "\<forall>j < k. length (filter (\<lambda>f. doubleBin vf f = j) xs) < length (filter (\<lambda>f. doubleBin vf f = k) xs)"
    unfolding xs_def [symmetric] b_spec by blast
  have cnt: "length (filter (\<lambda>f. doubleBin vf f = j) xs) = length (doubleBinFiles vf j)" for j
    unfolding doubleBinFiles_def by (rule filter_length_perm [OF perm])
  have "clusterMedianSize (clusterBySize vf) = clusterMedianOf vf"
    using n ne by (simp add: clusterBySize_def Let_def split: prod.splits)
  also have "\<dots> = medianOf (sort (map (\<lambda>f. real (sf_size f)) (largestBinOf (buildBins m w xs))))"
    by (simp add: clusterMedianOf_def Let_def xs_def sizes_def m_def w_def)
  also have "\<dots> = medianOf (sort (map (\<lambda>f. real (sf_size f)) (filter (\<lambda>f. doubleBin vf f = k) xs)))"
    by (simp only: k(1))
  also have "\<dots> = doubleMedian (map (\<lambda>f. real (sf_size f)) (filter (\<lambda>f. doubleBin vf f = k) xs))"
    using k(2) by (intro medianOf_doubleMedian) simp
  also have "\<dots> = doubleMedian (map (\<lambda>f. real (sf_size f)) (doubleBinFiles vf k))"
  proof -
    have "mset (map (\<lambda>f. real (sf_size f)) (filter (\<lambda>f. doubleBin vf f = k) xs))
            = mset (map (\<lambda>f. real (sf_size f)) (filter (\<lambda>f. doubleBin vf f = k) vf))"
      using perm by (metis mset_filter mset_map)
    then have "sort (map (\<lambda>f. real (sf_size f)) (filter (\<lambda>f. doubleBin vf f = k) xs))
            = sort (map (\<lambda>f. real (sf_size f)) (filter (\<lambda>f. doubleBin vf f = k) vf))"
      by (rule sort_perm)
    then show ?thesis by (simp add: doubleMedian_def doubleBinFiles_def)
  qed
  finally have med: "clusterMedianSize (clusterBySize vf)
                = doubleMedian (map (\<lambda>f. real (sf_size f)) (doubleBinFiles vf k))" .
  have most: "\<forall>j. length (doubleBinFiles vf j) \<le> length (doubleBinFiles vf k)"
    using k(3) by (simp add: cnt)
  have ties: "\<forall>j < k. length (doubleBinFiles vf j) < length (doubleBinFiles vf k)"
    using k(4) by (simp add: cnt)
  have "0 < length (filter (\<lambda>f. doubleBin vf f = k) xs)" using k(2) by simp
  then have kne: "doubleBinFiles vf k \<noteq> []" unfolding cnt by simp
  from most ties kne med show ?thesis by (intro exI [of _ k] conjI)
qed

text \<open>
  C5 (amended). For three or more video files, each smaller than \<open>2^53\<close> bytes: the files
  are sorted by size ascending; with the bin width \<open>max(50 MiB, (max - min)/20)\<close> and the
  bin \<open>floor((size - min)/w)\<close> of each file, both quotients rounded to doubles, the primary
  cluster is a bin \<open>k\<close> with the most files, every bin of smaller index having strictly
  fewer; and \<open>clusterMedianSize\<close> is the median of the sizes in bin \<open>k\<close>, the mean of
  the two middle values in double arithmetic when their number is even, which is their
  exact mean when the sizes are below \<open>2^52\<close>.
\<close>

theorem detectEpisodeFiles_primary_cluster:
  assumes "3 \<le> length (listVideoFilesRecursive folderPath entries)"
    and "\<forall>f \<in> set (listVideoFilesRecursive folderPath entries). isSafeInteger (sf_size f)"
  shows "sorted (map sf_size (sortedBySize (listVideoFilesRecursive folderPath entries)))
       \<and> mset (sortedBySize (listVideoFilesRecursive folderPath entries))
           = mset (listVideoFilesRecursive folderPath entries)
       \<and> (\<exists>k. (\<forall>j. length (doubleBinFiles (listVideoFilesRecursive folderPath entries) j)
                    \<le> length (doubleBinFiles (listVideoFilesRecursive folderPath entries) k))
             \<and> (\<forall>j < k. length (doubleBinFiles (listVideoFilesRecursive folderPath entries) j)
                    < length (doubleBinFiles (listVideoFilesRecursive folderPath entries) k))
             \<and> clusterMedianSize (detectEpisodeFiles folderPath entries)
                 = doubleMedian (map (\<lambda>f. real (sf_size f))
                     (doubleBinFiles (listVideoFilesRecursive folderPath entries) k))
             \<and> ((\<forall>f \<in> set (listVideoFilesRecursive folderPath entries). sf_size f < 2 ^ 52) \<longrightarrow>
                  clusterMedianSize (detectEpisodeFiles folderPath entries)
                    = specMedian (map (\<lambda>f. real (sf_size f))
                        (doubleBinFiles (listVideoFilesRecursive folderPath entries) k))))"
proof (intro conjI)
  let ?vf = "listVideoFilesRecursive folderPath entries"
  show "sorted (map sf_size (sortedBySize ?vf))"
    by (rule sortedBySize_props)
  show "mset (sortedBySize ?vf) = mset ?vf"
    by (rule sortedBySize_props)
  from clusterBySize_primary_cluster [OF assms(1)] obtain k where k:
    "\<forall>j. length (doubleBinFiles ?vf j) \<le> length (doubleBinFiles ?vf k)"
    "\<forall>j < k. length (doubleBinFiles ?vf j) < length (doubleBinFiles ?vf k)"
    "doubleBinFiles ?vf k \<noteq> []"
    "clusterMedianSize (clusterBySize ?vf)
       = doubleMedian (map (\<lambda>f. real (sf_size f)) (doubleBinFiles ?vf k))"
    by blast
  have "clusterMedianSize (clusterBySize ?vf)
          = specMedian (map (\<lambda>f. real (sf_size f)) (doubleBinFiles ?vf k))"
    if small: "\<forall>f \<in> set ?vf. sf_size f < 2 ^ 52"
  proof -
    from small have "\<forall>f \<in> set (doubleBinFiles ?vf k). sf_size f < 2 ^ 52"
      by (simp add: doubleBinFiles_def)
    from doubleMedian_specMedian [OF this k(3)] k(4) show ?thesis by simp
  qed
  with k(1,2,4)
  show "\<exists>k. (\<forall>j. length (doubleBinFiles ?vf j) \<le> length (doubleBinFiles ?vf k))
             \<and> (\<forall>j < k. length (doubleBinFiles ?vf j) < length (doubleBinFiles ?vf k))
             \<and> clusterMedianSize (detectEpisodeFiles folderPath entries)
                 = doubleMedian (map (\<lambda>f. real (sf_size f)) (doubleBinFiles ?vf k))
             \<and> ((\<forall>f \<in> set ?vf. sf_size f < 2 ^ 52) \<longrightarrow>
                  clusterMedianSize (detectEpisodeFiles folderPath entries)
                    = specMedian (map (\<lambda>f. real (sf_size f)) (doubleBinFiles ?vf k)))"
    unfolding detectEpisodeFiles_def by (intro exI [of _ k] conjI impI)
qed

lemma list_discTree5: "listVideoFilesRecursive [str ''disc''] discTree5 = files5"
  by (simp add: discTree5_def files5_def videoFile_def listing_eval)

lemma sorted_files5:
  "sortedBySize files5
     = [videoFile (str ''e1.mkv'') 1000000000, videoFile (str ''e2.mkv'') 1000000010,
        videoFile (str ''e3.mkv'') 2000000000, videoFile (str ''e4.mkv'') 2000000010,
        videoFile (str ''menu.mkv'') 3000000000]"
  by (simp add: sortedBySize_def files5_def sf_size_videoFile)

lemma binWidth_files5: "binWidthOf (3000000000 - 1000000000) = 100000000"
  by (simp add: binWidthOf_def fdiv_def fl_numeral)

lemma binIndex_files5:
  "\<lfloor>fdiv (1000000000 - 1000000000) 100000000\<rfloor> = 0"
  "\<lfloor>fdiv (1000000010 - 1000000000) 100000000\<rfloor> = 0"
  "\<lfloor>fdiv (2000000000 - 1000000000) 100000000\<rfloor> = 10"
  "\<lfloor>fdiv (2000000010 - 1000000000) 100000000\<rfloor> = 10"
  "\<lfloor>fdiv (3000000000 - 1000000000) 100000000\<rfloor> = 20"
  by (simp_all add: fdiv_def fl_numeral)

lemma bins_files5:
  "buildBins 1000000000 100000000
     [videoFile (str ''e1.mkv'') 1000000000, videoFile (str ''e2.mkv'') 1000000010,
      videoFile (str ''e3.mkv'') 2000000000, videoFile (str ''e4.mkv'') 2000000010,
      videoFile (str ''menu.mkv'') 3000000000]
   = [(0, [videoFile (str ''e1.mkv'') 1000000000, videoFile (str ''e2.mkv'') 1000000010]),
      (10, [videoFile (str ''e3.mkv'') 2000000000, videoFile (str ''e4.mkv'') 2000000010]),
      (20, [videoFile (str ''menu.mkv'') 3000000000])]"
  using binIndex_files5 by (simp add: buildBins_def binIndex_def sf_size_videoFile)

lemma mean_files5: "fdiv (fadd 1000000000 1000000010) 2 = 1000000005"
  by (simp add: fdiv_def fadd_def fl_numeral)

lemma median_files5: "clusterMedianOf files5 = 1000000005"
  apply (simp only: clusterMedianOf_def Let_def sorted_files5)
  using binWidth_files5 apply (simp add: sf_size_videoFile bins_files5)
  apply (simp add: largestBinOf_def medianOf_def sf_size_videoFile mean_files5)
  done

lemma detect_discTree5:
  "clusterMedianSize (detectEpisodeFiles [str ''disc''] discTree5) = 1000000005"
proof -
  have "length files5 = 5" by (simp add: files5_def)
  then have "clusterMedianSize (clusterBySize files5) = clusterMedianOf files5"
    by (simp add: clusterBySize_def Let_def split: prod.splits)
  then show ?thesis by (simp add: detectEpisodeFiles_def list_discTree5 median_files5)
qed

theorem detectEpisodeFiles_primary_cluster_witness:
  "3 \<le> length (listVideoFilesRecursive [str ''disc''] discTree5)
   \<and> list_all (\<lambda>f. isSafeInteger (sf_size f)) (listVideoFilesRecursive [str ''disc''] discTree5)
   \<and> list_all (\<lambda>f. sf_size f < 2 ^ 52) (listVideoFilesRecursive [str ''disc''] discTree5)
   \<and> (\<exists>k. (\<forall>j. length (doubleBinFiles (listVideoFilesRecursive [str ''disc''] discTree5) j)
                \<le> length (doubleBinFiles (listVideoFilesRecursive [str ''disc''] discTree5) k))
         \<and> (\<forall>j < k. length (doubleBinFiles (listVideoFilesRecursive [str ''disc''] discTree5) j)
                < length (doubleBinFiles (listVideoFilesRecursive [str ''disc''] discTree5) k))
         \<and> doubleMedian (map (\<lambda>f. real (sf_size f))
               (doubleBinFiles (listVideoFilesRecursive [str ''disc''] discTree5) k)) = 1000000005
         \<and> specMedian (map (\<lambda>f. real (sf_size f))
               (doubleBinFiles (listVideoFilesRecursive [str ''disc''] discTree5) k)) = 1000000005)"
proof -
  have h: "3 \<le> length (listVideoFilesRecursive [str ''disc''] discTree5)"
    by (simp add: list_discTree5 files5_def)
  have safe: "\<forall>f \<in> set (listVideoFilesRecursive [str ''disc''] discTree5). isSafeInteger (sf_size f)"
    by (simp add: list_discTree5 files5_def sf_size_videoFile isSafeInteger_def)
  have small: "\<forall>f \<in> set (listVideoFilesRecursive [str ''disc''] discTree5). sf_size f < 2 ^ 52"
    by (simp add: list_discTree5 files5_def sf_size_videoFile)
  from detectEpisodeFiles_primary_cluster [OF h safe] small
  obtain k where
    "\<forall>j. length (doubleBinFiles (listVideoFilesRecursive [str ''disc''] discTree5) j)
                \<le> length (doubleBinFiles (listVideoFilesRecursive [str ''disc''] discTree5) k)"
    "\<forall>j < k. length (doubleBinFiles (listVideoFilesRecursive [str ''disc''] discTree5) j)
                < length (doubleBinFiles (listVideoFilesRecursive [str ''disc''] discTree5) k)"
    "clusterMedianSize (detectEpisodeFiles [str ''disc''] discTree5)
       = doubleMedian (map (\<lambda>f. real (sf_size f))
               (doubleBinFiles (listVideoFilesRecursive [str ''disc''] discTree5) k))"
    "clusterMedianSize (detectEpisodeFiles [str ''disc''] discTree5)
       = specMedian (map (\<lambda>f. real (sf_size f))
               (doubleBinFiles (listVideoFilesRecursive [str ''disc''] discTree5) k))"
    by blast
  with h safe small detect_discTree5 show ?thesis
    unfolding list_all_iff by (intro conjI exI [of _ k]) simp_all
qed

lemma list_discTree4: "listVideoFilesRecursive [str ''disc''] discTree4 = files4"
  by (simp add: discTree4_def files4_def videoFile_def listing_eval)

lemma sorted_files4: "sortedBySize files4 = files4"
  by (simp add: sortedBySize_def files4_def sf_size_videoFile)

lemma binWidth_files4: "binWidthOf 1715051988 = 2877379765390541 / 33554432"
  by (simp add: binWidthOf_def fdiv_def fl_numeral)

lemma sizes_files4:
  "map (\<lambda>f. real (sf_size f)) files4 = [1000, 1286288991, 1286289991, 1715052988]"
  by (simp add: files4_def sf_size_videoFile)

lemma binIndex_files4:
  "\<lfloor>fdiv (1000 - 1000) (2877379765390541 / 33554432)\<rfloor> = 0"
  "\<lfloor>fdiv (1286288991 - 1000) (2877379765390541 / 33554432)\<rfloor> = 14"
  "\<lfloor>fdiv (1286289991 - 1000) (2877379765390541 / 33554432)\<rfloor> = 14"
  "\<lfloor>fdiv (1715052988 - 1000) (2877379765390541 / 33554432)\<rfloor> = 20"
  by (simp_all add: fdiv_def fl_numeral)

lemma bins_files4:
  "buildBins 1000 (2877379765390541 / 33554432) files4
   = [(0, [videoFile (str ''intro.mkv'') 1000]),
      (14, [videoFile (str ''e1.mkv'') 1286288991, videoFile (str ''e2.mkv'') 1286289991]),
      (20, [videoFile (str ''film.mkv'') 1715052988])]"
  using binIndex_files4 by (simp add: files4_def buildBins_def binIndex_def sf_size_videoFile)

lemma mean_files4: "fdiv (fadd 1286288991 1286289991) 2 = 1286289491"
  by (simp add: fdiv_def fadd_def fl_numeral)

lemma median_files4: "clusterMedianOf files4 = 1286289491"
  apply (simp only: clusterMedianOf_def Let_def sorted_files4 sizes_files4)
  apply (simp add: binWidth_files4 bins_files4)
  apply (simp add: largestBinOf_def medianOf_def sf_size_videoFile mean_files4)
  done

lemma detect_discTree4:
  "clusterMedianSize (detectEpisodeFiles [str ''disc''] discTree4) = 1286289491"
proof -
  have "length files4 = 4" by (simp add: files4_def)
  then have "clusterMedianSize (clusterBySize files4) = clusterMedianOf files4"
    by (simp add: clusterBySize_def Let_def split: prod.splits)
  then show ?thesis by (simp add: detectEpisodeFiles_def list_discTree4 median_files4)
qed

lemma specBin_files4:
  "specBin files4 (videoFile (str ''intro.mkv'') 1000) = 0"
  "specBin files4 (videoFile (str ''e1.mkv'') 1286288991) = 14"
  "specBin files4 (videoFile (str ''e2.mkv'') 1286289991) = 15"
  "specBin files4 (videoFile (str ''film.mkv'') 1715052988) = 20"
  by (simp_all add: specBin_def specBinWidth_def sizesOf_def files4_def sf_size_videoFile)

lemma doubleBin_files4: "doubleBin files4 (videoFile (str ''e2.mkv'') 1286289991) = 14"
proof -
  have "doubleBinWidth files4 = binWidthOf 1715051988"
    by (simp add: doubleBinWidth_def binWidthOf_def sizesOf_def files4_def sf_size_videoFile)
  then have w: "doubleBinWidth files4 = 2877379765390541 / 33554432"
    by (simp only: binWidth_files4)
  have m: "Min (sizesOf files4) = 1000"
    by (simp add: sizesOf_def files4_def sf_size_videoFile)
  show ?thesis
    unfolding doubleBin_def w m sf_size_videoFile using binIndex_files4(3) by simp
qed

lemma specBinFiles_files4:
  "specBinFiles files4 j =
     (if j = 0 then [videoFile (str ''intro.mkv'') 1000]
      else if j = 14 then [videoFile (str ''e1.mkv'') 1286288991]
      else if j = 15 then [videoFile (str ''e2.mkv'') 1286289991]
      else if j = 20 then [videoFile (str ''film.mkv'') 1715052988]
      else [])"
proof -
  have "specBinFiles files4 j
      = filter (\<lambda>f. specBin files4 f = j)
          [videoFile (str ''intro.mkv'') 1000, videoFile (str ''e1.mkv'') 1286288991,
           videoFile (str ''e2.mkv'') 1286289991, videoFile (str ''film.mkv'') 1715052988]"
    by (simp add: specBinFiles_def) (simp add: files4_def)
  then show ?thesis by (auto simp: specBin_files4)
qed

text \<open>
  C5 as stated fails for four files of 1000, 1286288991, 1286289991 and 1715052988 bytes.
  The width is 85752599.4, and the third file lies exactly fifteen widths above the smallest:
  the bins \<open>floor((size - min)/w)\<close> are 0, 14, 15 and 20, each with one file, so that the
  bin with the most files and the smallest index is bin 0 with median 1000. The program
  divides in doubles, gets 14.999999999999998 for the third file, puts it into bin 14
  with the second, and returns the median 1286289491 of that bin.
\<close>

theorem detectEpisodeFiles_primary_cluster_counterexample:
  "3 \<le> length (listVideoFilesRecursive [str ''disc''] discTree4)
   \<and> clusterMedianSize (detectEpisodeFiles [str ''disc''] discTree4) = 1286289491
   \<and> specBin (listVideoFilesRecursive [str ''disc''] discTree4) (videoFile (str ''e2.mkv'') 1286289991) = 15
   \<and> doubleBin (listVideoFilesRecursive [str ''disc''] discTree4) (videoFile (str ''e2.mkv'') 1286289991) = 14
   \<and> \<not> (\<exists>k. (\<forall>j. length (specBinFiles (listVideoFilesRecursive [str ''disc''] discTree4) j)
                    \<le> length (specBinFiles (listVideoFilesRecursive [str ''disc''] discTree4) k))
             \<and> (\<forall>j < k. length (specBinFiles (listVideoFilesRecursive [str ''disc''] discTree4) j)
                    < length (specBinFiles (listVideoFilesRecursive [str ''disc''] discTree4) k))
             \<and> clusterMedianSize (detectEpisodeFiles [str ''disc''] discTree4)
                 = specMedian (map (\<lambda>f. real (sf_size f))
                     (specBinFiles (listVideoFilesRecursive [str ''disc''] discTree4) k)))"
proof (intro conjI)
  show "3 \<le> length (listVideoFilesRecursive [str ''disc''] discTree4)"
    by (simp add: list_discTree4 files4_def)
  show "clusterMedianSize (detectEpisodeFiles [str ''disc''] discTree4) = 1286289491"
    by (rule detect_discTree4)
  show "specBin (listVideoFilesRecursive [str ''disc''] discTree4) (videoFile (str ''e2.mkv'') 1286289991) = 15"
    unfolding list_discTree4 by (rule specBin_files4)
  show "doubleBin (listVideoFilesRecursive [str ''disc''] discTree4) (videoFile (str ''e2.mkv'') 1286289991) = 14"
    unfolding list_discTree4 by (rule doubleBin_files4)
  show "\<not> (\<exists>k. (\<forall>j. length (specBinFiles (listVideoFilesRecursive [str ''disc''] discTree4) j)
                    \<le> length (specBinFiles (listVideoFilesRecursive [str ''disc''] discTree4) k))
             \<and> (\<forall>j < k. length (specBinFiles (listVideoFilesRecursive [str ''disc''] discTree4) j)
                    < length (specBinFiles (listVideoFilesRecursive [str ''disc''] discTree4) k))
             \<and> clusterMedianSize (detectEpisodeFiles [str ''disc''] discTree4)
                 = specMedian (map (\<lambda>f. real (sf_size f))
                     (specBinFiles (listVideoFilesRecursive [str ''disc''] discTree4) k)))"
  proof
    assume "\<exists>k. (\<forall>j. length (specBinFiles (listVideoFilesRecursive [str ''disc''] discTree4) j)
                    \<le> length (specBinFiles (listVideoFilesRecursive [str ''disc''] discTree4) k))
             \<and> (\<forall>j < k. length (specBinFiles (listVideoFilesRecursive [str ''disc''] discTree4) j)
                    < length (specBinFiles (listVideoFilesRecursive [str ''disc''] discTree4) k))
             \<and> clusterMedianSize (detectEpisodeFiles [str ''disc''] discTree4)
                 = specMedian (map (\<lambda>f. real (sf_size f))
                     (specBinFiles (listVideoFilesRecursive [str ''disc''] discTree4) k))"
    then obtain k where k:
      "\<forall>j. length (specBinFiles files4 j) \<le> length (specBinFiles files4 k)"
      "\<forall>j < k. length (specBinFiles files4 j) < length (specBinFiles files4 k)"
      "clusterMedianSize (detectEpisodeFiles [str ''disc''] discTree4)
         = specMedian (map (\<lambda>f. real (sf_size f)) (specBinFiles files4 k))"
      unfolding list_discTree4 by blast
    have one: "length (specBinFiles files4 j) \<le> 1" for j
      by (simp add: specBinFiles_files4)
    have zero: "length (specBinFiles files4 0) = 1"
      by (simp add: specBinFiles_files4)
    have "\<not> 0 < k"
    proof
      assume "0 < k"
      with k(2) have "length (specBinFiles files4 0) < length (specBinFiles files4 k)" by blast
      with zero one [of k] show False by simp
    qed
    moreover from k(1) zero have "1 \<le> length (specBinFiles files4 k)" by metis
    then have "k = 0 \<or> k = 14 \<or> k = 15 \<or> k = 20"
      by (simp add: specBinFiles_files4 split: if_splits)
    ultimately have "k = 0" by auto
    then have "specMedian (map (\<lambda>f. real (sf_size f)) (specBinFiles files4 k)) = 1000"
      by (simp add: specBinFiles_files4 specMedian_def sf_size_videoFile)
    with k(3) detect_discTree4 show False by simp
  qed
qed

section \<open>Integrity verification and byte totals\<close>

lemma commonPrefix_append: "commonPrefix d (d @ r) = length d"
  by (induction d) simp_all

lemma relative_append: "relative d (d @ r) = r"
  by (simp add: relative_def commonPrefix_append)

lemma listAllFilesRecursive_prefix:
  "p \<in> set (listAllFilesRecursive d es) \<Longrightarrow> \<exists>r. p = d @ r"
proof (induction d es rule: listAllFilesRecursive.induct)
  case (1 directory)
  then show ?case by simp
next
  case (2 directory name node entries)
  show ?case
  proof (cases node)
    case (File fileSize)
    with 2 show ?thesis by (auto simp: join_def)
  next
    case (Dir dirSize sub)
    with 2 show ?thesis by (auto simp: join_def)
  next
    case (Other otherSize)
    with 2 show ?thesis by auto
  qed
qed

lemma verifyStep_cases:
  "verifyStep sd se od oe missing p = missing
     \<or> verifyStep sd se od oe missing p = missing @ [relative sd p]"
  by (simp add: verifyStep_def Let_def split: option.splits)

lemma verifyStep_ok:
  "verifyStep sd se od oe missing p = missing \<longleftrightarrow>
     (\<exists>s. stat sd se p = Some s \<and> stat od oe (joinPath od (relative sd p)) = Some s)"
  by (auto simp: verifyStep_def Let_def split: option.splits)

lemma foldl_verifyStep_empty:
  "foldl (verifyStep sd se od oe) acc ps = [] \<longleftrightarrow>
     acc = [] \<and> (\<forall>p \<in> set ps. \<exists>s. stat sd se p = Some s
                                  \<and> stat od oe (joinPath od (relative sd p)) = Some s)"
proof (induction ps arbitrary: acc)
  case Nil
  show ?case by simp
next
  case (Cons p ps)
  from verifyStep_cases [of sd se od oe acc p] show ?case
  proof
    assume same: "verifyStep sd se od oe acc p = acc"
    with verifyStep_ok [of sd se od oe acc p] Cons.IH [of acc] show ?thesis by auto
  next
    assume grow: "verifyStep sd se od oe acc p = acc @ [relative sd p]"
    then have "verifyStep sd se od oe acc p \<noteq> acc" by simp
    with verifyStep_ok [of sd se od oe acc p]
    have "\<not> (\<exists>s. stat sd se p = Some s \<and> stat od oe (joinPath od (relative sd p)) = Some s)"
      by blast
    with grow Cons.IH [of "acc @ [relative sd p]"] show ?thesis by auto
  qed
qed

lemma verified_iff:
  "verified (verifyOutputIntegrity sd se od oe) \<longleftrightarrow>
     (\<forall>p \<in> set (listAllFilesRecursive sd se).
        \<exists>s. stat sd se p = Some s \<and> stat od oe (joinPath od (relative sd p)) = Some s)"
  by (simp add: verifyOutputIntegrity_def Let_def foldl_verifyStep_empty)

text \<open>
  C7, as amended. If the verification returns \<open>verified\<close>, every file of the walk of the
  staging directory has an entry of the same size at the same relative path under the output
  directory; and when the walk of the output directory finds the same relative paths and no
  others, the two sums of file sizes are equal.
\<close>

theorem verifyOutputIntegrity_totals:
  assumes "verified (verifyOutputIntegrity sd se od oe)"
  shows "(\<forall>p \<in> set (listAllFilesRecursive sd se).
            \<exists>s. stat sd se p = Some s \<and> stat od oe (joinPath od (relative sd p)) = Some s)
       \<and> (mset (map (relative od) (listAllFilesRecursive od oe))
             = mset (map (relative sd) (listAllFilesRecursive sd se))
           \<longrightarrow> totalSize sd se = totalSize od oe)"
proof (intro conjI impI)
  from assms show pointwise: "\<forall>p \<in> set (listAllFilesRecursive sd se).
            \<exists>s. stat sd se p = Some s \<and> stat od oe (joinPath od (relative sd p)) = Some s"
    by (simp add: verified_iff)
  assume same: "mset (map (relative od) (listAllFilesRecursive od oe))
             = mset (map (relative sd) (listAllFilesRecursive sd se))"
  define g where "g r = (case stat od oe (joinPath od r) of Some s \<Rightarrow> s | None \<Rightarrow> 0)" for r
  have "totalSize sd se = sum_list (map (\<lambda>p. g (relative sd p)) (listAllFilesRecursive sd se))"
    unfolding totalSize_def
  proof (rule arg_cong [where f = sum_list], rule map_cong [OF refl])
    fix p assume "p \<in> set (listAllFilesRecursive sd se)"
    with pointwise obtain s where "stat sd se p = Some s"
      "stat od oe (joinPath od (relative sd p)) = Some s" by blast
    then show "(case stat sd se p of Some s \<Rightarrow> s | None \<Rightarrow> 0) = g (relative sd p)"
      by (simp add: g_def)
  qed
  also have "\<dots> = sum_list (map g (map (relative sd) (listAllFilesRecursive sd se)))"
    by (simp add: o_def)
  also have "\<dots> = sum_mset (image_mset g (mset (map (relative sd) (listAllFilesRecursive sd se))))"
    by (metis mset_map sum_mset_sum_list)
  also have "\<dots> = sum_mset (image_mset g (mset (map (relative od) (listAllFilesRecursive od oe))))"
    by (simp only: same)
  also have "\<dots> = sum_list (map g (map (relative od) (listAllFilesRecursive od oe)))"
    by (metis mset_map sum_mset_sum_list)
  also have "\<dots> = sum_list (map (\<lambda>q. g (relative od q)) (listAllFilesRecursive od oe))"
    by (simp add: o_def)
  also have "\<dots> = totalSize od oe"
    unfolding totalSize_def
  proof (rule arg_cong [where f = sum_list], rule map_cong [OF refl])
    fix q assume "q \<in> set (listAllFilesRecursive od oe)"
    then obtain r where "q = od @ r" using listAllFilesRecursive_prefix by blast
    then show "g (relative od q) = (case stat od oe q of Some s \<Rightarrow> s | None \<Rightarrow> 0)"
      by (simp add: g_def relative_append joinPath_def)
  qed
  finally show "totalSize sd se = totalSize od oe" .
qed

lemmas verify_eval =
  verifyOutputIntegrity_def verifyStep_def totalSize_def stat_def isPrefixOf_def statSize_def
  joinPath_def join_def relative_def stagingX_def outputX_def str_def Let_def

theorem verifyOutputIntegrity_totals_witness:
  "verified (verifyOutputIntegrity [str ''stg''] stagingX [str ''out''] stagingX)
   \<and> mset (map (relative [str ''out'']) (listAllFilesRecursive [str ''out''] stagingX))
       = mset (map (relative [str ''stg'']) (listAllFilesRecursive [str ''stg''] stagingX))
   \<and> totalSize [str ''stg''] stagingX = totalSize [str ''out''] stagingX"
proof -
  have v: "verified (verifyOutputIntegrity [str ''stg''] stagingX [str ''out''] stagingX)"
    by (simp add: verify_eval)
  have m: "mset (map (relative [str ''out'']) (listAllFilesRecursive [str ''out''] stagingX))
       = mset (map (relative [str ''stg'']) (listAllFilesRecursive [str ''stg''] stagingX))"
    by (simp add: verify_eval)
  from verifyOutputIntegrity_totals [OF v] m
  have "totalSize [str ''stg''] stagingX = totalSize [str ''out''] stagingX" by blast
  with v m show ?thesis by blast
qed

text \<open>
  C7 as stated fails when the output directory holds a file that staging does not: the
  verification succeeds, and the totals are 10 and 15.
\<close>

theorem verifyOutputIntegrity_totals_counterexample:
  "verified (verifyOutputIntegrity [str ''stg''] stagingX [str ''out''] outputX)
   \<and> totalSize [str ''stg''] stagingX = 10
   \<and> totalSize [str ''out''] outputX = 15"
  by (simp add: verify_eval)

section \<open>Review decisions settle only on approval\<close>

lemma filter_length_mono:
  "(\<And>x. x \<in> set xs \<Longrightarrow> P x \<Longrightarrow> Q x) \<Longrightarrow> length (filter P xs) \<le> length (filter Q xs)"
proof (induction xs)
  case Nil
  show ?case by simp
next
  case (Cons x xs)
  then have "length (filter P xs) \<le> length (filter Q xs)" by simp
  with Cons.prems [of x] show ?case by auto
qed

lemma query_after_approval:
  "rd_approved decision \<Longrightarrow>
     length (queryPendingReviews (reviewDecisionSignal decision st))
       \<le> length (queryPendingReviews st)"
  unfolding queryPendingReviews_def reviewDecisionSignal_def
  by (simp, rule filter_length_mono) (auto split: option.splits if_splits)

lemma query_after_rejection:
  "\<not> rd_approved decision \<Longrightarrow>
     length (queryPendingReviews st)
       \<le> length (queryPendingReviews (reviewDecisionSignal decision st))"
  unfolding queryPendingReviews_def reviewDecisionSignal_def
  by (simp, rule filter_length_mono) (auto split: option.splits if_splits)

lemma query_rejection_unchanged:
  assumes "\<not> rd_approved decision"
    and "\<forall>d. resolvedReviews st (rd_reviewItemId decision) = Some d \<longrightarrow> \<not> rd_approved d"
  shows "queryPendingReviews (reviewDecisionSignal decision st) = queryPendingReviews st"
  unfolding queryPendingReviews_def reviewDecisionSignal_def
  using assms by (auto intro!: filter_cong split: option.splits)

lemma query_after_delete:
  assumes "resolvedReviews st k = Some d" "\<not> rd_approved d"
  shows "queryPendingReviews (st\<lparr> resolvedReviews := (resolvedReviews st)(k := None) \<rparr>)
           = queryPendingReviews st"
  unfolding queryPendingReviews_def
  using assms by (auto intro!: filter_cong split: option.splits)

lemma query_after_settled:
  "reviewIteration input review st = Settled st' \<Longrightarrow>
     queryPendingReviews st' = queryPendingReviews st"
  by (auto simp: reviewIteration_def queryPendingReviews_def
           split: option.splits if_splits sum.splits prod.splits)

lemma query_after_settled_state:
  "reviewIteration input review st = Settled st' \<Longrightarrow>
     resolvedReviews st' = resolvedReviews st \<and> pendingReviews st' = pendingReviews st"
  by (auto simp: reviewIteration_def split: option.splits if_splits sum.splits prod.splits)

lemma query_approval_removes:
  "rd_approved decision \<Longrightarrow>
     queryPendingReviews (reviewDecisionSignal decision st)
       = filter (\<lambda>r. ri_id r \<noteq> rd_reviewItemId decision) (queryPendingReviews st)"
  unfolding queryPendingReviews_def reviewDecisionSignal_def
  by (auto intro!: filter_cong split: option.splits)

lemma query_listing:
  "queryPendingReviews st
     = filter (\<lambda>r. \<not> (\<exists>d. resolvedReviews st (ri_id r) = Some d \<and> rd_approved d))
         (pendingReviews st)"
  unfolding queryPendingReviews_def by (auto intro!: filter_cong split: option.splits)

lemma query_rejection_listing:
  "\<not> rd_approved decision \<Longrightarrow>
     queryPendingReviews (reviewDecisionSignal decision st)
       = filter (\<lambda>r. ri_id r = rd_reviewItemId decision
                    \<or> \<not> (\<exists>d. resolvedReviews st (ri_id r) = Some d \<and> rd_approved d))
           (pendingReviews st)"
  unfolding queryPendingReviews_def reviewDecisionSignal_def
  by (auto intro!: filter_cong split: option.splits)

lemma filter_length_split:
  "(\<And>x. x \<in> set xs \<Longrightarrow> \<not> (P x \<and> Q x)) \<Longrightarrow>
     length (filter (\<lambda>x. P x \<or> Q x) xs) = length (filter Q xs) + length (filter P xs)"
  by (induction xs) auto

lemma query_rejection_relists:
  assumes "\<not> rd_approved decision"
    and "resolvedReviews st (rd_reviewItemId decision) = Some d" and "rd_approved d"
  shows "length (queryPendingReviews (reviewDecisionSignal decision st))
           = length (queryPendingReviews st)
             + length (filter (\<lambda>r. ri_id r = rd_reviewItemId decision) (pendingReviews st))"
proof -
  let ?old = "\<lambda>r. case resolvedReviews st (ri_id r) of None \<Rightarrow> True | Some x \<Rightarrow> \<not> rd_approved x"
  have "queryPendingReviews (reviewDecisionSignal decision st)
          = filter (\<lambda>r. ri_id r = rd_reviewItemId decision \<or> ?old r) (pendingReviews st)"
    unfolding queryPendingReviews_def reviewDecisionSignal_def
    using assms(1) by (auto intro!: filter_cong split: option.splits)
  moreover have "length (filter (\<lambda>r. ri_id r = rd_reviewItemId decision \<or> ?old r) (pendingReviews st))
          = length (filter ?old (pendingReviews st))
            + length (filter (\<lambda>r. ri_id r = rd_reviewItemId decision) (pendingReviews st))"
    by (rule filter_length_split) (use assms(2,3) in auto)
  ultimately show ?thesis by (simp add: queryPendingReviews_def)
qed

lemma episodeTitleFor_found:
  assumes "find (\<lambda>x. si_seasonNumber x = s) (seasons meta) = Some season"
    and "find (\<lambda>x. ae_number x = e) (si_episodes season) = Some episode"
    and "ae_title episode = Some title"
  shows "episodeTitleFor meta s e = title"
  using assms by (simp add: episodeTitleFor_def)

lemma episodeTitleFor_fallback:
  assumes "\<not> (\<exists>season episode title.
             find (\<lambda>x. si_seasonNumber x = s) (seasons meta) = Some season
             \<and> find (\<lambda>x. ae_number x = e) (si_episodes season) = Some episode
             \<and> ae_title episode = Some title)"
    and "isSafeInteger e"
  shows "episodeTitleFor meta s e = str ''Episode '' @ decimalDigits e"
  using assms by (auto simp: episodeTitleFor_def String_safe split: option.splits)

text \<open>
  C4, as amended. While no decision is stored for the review's id the loop stays suspended.
  With a show to name files after, an approved decision is copy-renamed with the corrected
  season and episode where given and the suggested ones otherwise, the title that the
  metadata has for that season and episode and otherwise \<open>Episode N\<close> (the decimal digits of
  \<open>N\<close>, for \<open>N\<close> below \<open>2^53\<close>), confidence 1.0 and reasoning \<open>User-approved\<close>; a
  rejecting decision is deleted and the loop is suspended again. The \<open>pendingReviews\<close> of
  the progress query are the reviews without a stored approving decision. The loop leaves
  this list as it is, when it settles an approval (the decision stays stored) and when it
  deletes a rejection. Storing an approving decision removes the reviews with its id from
  the list; storing a rejecting decision never shortens the list, leaves it unchanged when
  no approving decision is stored for the id, and otherwise brings back the reviews with
  that id, whether or not the loop has already settled them.
\<close>

theorem review_loop_settles_on_approval:
  "(resolvedReviews st (ri_id review) = None \<longrightarrow> reviewIteration input review st = Suspended)
   \<and> (resolvedReviews st (ri_id review) = Some decision \<and> rd_approved decision
        \<and> animeForRename (pf_seriesMetadata input) = Some anime \<longrightarrow>
        reviewIteration input review st =
          (case copyEpisodeToWorkDir (correctedMatch (pf_seriesMetadata input) review decision) anime
                  (join (pf_seriesRootDir input) (str ''_episodes'')) (pf_seriesRootDir input)
                  (pf_dryRun input) (files st) of
             Inl err \<Rightarrow> Thrown err
           | Inr (fs', renamed) \<Rightarrow>
               Settled (st\<lparr> renamedFiles := renamedFiles st @ [renamed],
                            episodesCopied := episodesCopied st + 1,
                            currentFile := None, files := fs' \<rparr>)))
   \<and> em_seasonNumber (correctedMatch meta review decision)
        = (case rd_correctedSeasonNumber decision of
             Some s \<Rightarrow> s | None \<Rightarrow> ri_suggestedSeasonNumber review)
   \<and> em_episodeNumber (correctedMatch meta review decision)
        = (case rd_correctedEpisodeNumber decision of
             Some e \<Rightarrow> e | None \<Rightarrow> ri_suggestedEpisodeNumber review)
   \<and> em_episodeTitle (correctedMatch meta review decision)
        = episodeTitleFor meta (em_seasonNumber (correctedMatch meta review decision))
            (em_episodeNumber (correctedMatch meta review decision))
   \<and> (find (\<lambda>x. si_seasonNumber x = s) (seasons meta) = Some season
        \<and> find (\<lambda>x. ae_number x = e) (si_episodes season) = Some episode
        \<and> ae_title episode = Some title \<longrightarrow>
        episodeTitleFor meta s e = title)
   \<and> (\<not> (\<exists>season episode title.
              find (\<lambda>x. si_seasonNumber x = s) (seasons meta) = Some season
              \<and> find (\<lambda>x. ae_number x = e) (si_episodes season) = Some episode
              \<and> ae_title episode = Some title)
        \<and> isSafeInteger e \<longrightarrow>
        episodeTitleFor meta s e = str ''Episode '' @ decimalDigits e)
   \<and> em_confidence (correctedMatch meta review decision) = 1
   \<and> em_reasoning (correctedMatch meta review decision) = str ''User-approved''
   \<and> (resolvedReviews st (ri_id review) = Some decision \<and> \<not> rd_approved decision
        \<and> animeForRename (pf_seriesMetadata input) = Some anime \<longrightarrow>
        reviewIteration input review st
          = Retry (st\<lparr> resolvedReviews := (resolvedReviews st)(ri_id review := None) \<rparr>)
        \<and> reviewIteration input review
             (st\<lparr> resolvedReviews := (resolvedReviews st)(ri_id review := None) \<rparr>) = Suspended
        \<and> queryPendingReviews (st\<lparr> resolvedReviews := (resolvedReviews st)(ri_id review := None) \<rparr>)
             = queryPendingReviews st)
   \<and> queryPendingReviews st
        = filter (\<lambda>r. \<not> (\<exists>d. resolvedReviews st (ri_id r) = Some d \<and> rd_approved d))
            (pendingReviews st)
   \<and> (reviewIteration input review st = Settled st' \<longrightarrow>
        queryPendingReviews st' = queryPendingReviews st
        \<and> resolvedReviews st' = resolvedReviews st
        \<and> pendingReviews st' = pendingReviews st)
   \<and> (rd_approved signal \<longrightarrow>
        queryPendingReviews (reviewDecisionSignal signal st)
          = filter (\<lambda>r. ri_id r \<noteq> rd_reviewItemId signal) (queryPendingReviews st)
        \<and> length (queryPendingReviews (reviewDecisionSignal signal st))
          \<le> length (queryPendingReviews st))
   \<and> (\<not> rd_approved signal \<longrightarrow>
        queryPendingReviews (reviewDecisionSignal signal st)
          = filter (\<lambda>r. ri_id r = rd_reviewItemId signal
                       \<or> \<not> (\<exists>d. resolvedReviews st (ri_id r) = Some d \<and> rd_approved d))
              (pendingReviews st)
        \<and> length (queryPendingReviews st)
          \<le> length (queryPendingReviews (reviewDecisionSignal signal st)))
   \<and> (\<not> rd_approved signal
        \<and> (\<forall>d. resolvedReviews st (rd_reviewItemId signal) = Some d \<longrightarrow> \<not> rd_approved d) \<longrightarrow>
        queryPendingReviews (reviewDecisionSignal signal st) = queryPendingReviews st)
   \<and> (\<not> rd_approved signal
        \<and> resolvedReviews st (rd_reviewItemId signal) = Some stored \<and> rd_approved stored \<longrightarrow>
        length (queryPendingReviews (reviewDecisionSignal signal st))
          = length (queryPendingReviews st)
            + length (filter (\<lambda>r. ri_id r = rd_reviewItemId signal) (pendingReviews st)))"
proof (intro conjI impI)
  show "reviewIteration input review st = Suspended"
    if "resolvedReviews st (ri_id review) = None"
    using that by (simp add: reviewIteration_def)
  show "reviewIteration input review st =
          (case copyEpisodeToWorkDir (correctedMatch (pf_seriesMetadata input) review decision) anime
                  (join (pf_seriesRootDir input) (str ''_episodes'')) (pf_seriesRootDir input)
                  (pf_dryRun input) (files st) of
             Inl err \<Rightarrow> Thrown err
           | Inr (fs', renamed) \<Rightarrow>
               Settled (st\<lparr> renamedFiles := renamedFiles st @ [renamed],
                            episodesCopied := episodesCopied st + 1,
                            currentFile := None, files := fs' \<rparr>))"
    if "resolvedReviews st (ri_id review) = Some decision \<and> rd_approved decision
        \<and> animeForRename (pf_seriesMetadata input) = Some anime"
    using that by (simp add: reviewIteration_def)
  show "em_seasonNumber (correctedMatch meta review decision)
        = (case rd_correctedSeasonNumber decision of
             Some s \<Rightarrow> s | None \<Rightarrow> ri_suggestedSeasonNumber review)"
    by (simp add: correctedMatch_def Let_def)
  show "em_episodeNumber (correctedMatch meta review decision)
        = (case rd_correctedEpisodeNumber decision of
             Some e \<Rightarrow> e | None \<Rightarrow> ri_suggestedEpisodeNumber review)"
    by (simp add: correctedMatch_def Let_def)
  show "em_episodeTitle (correctedMatch meta review decision)
        = episodeTitleFor meta (em_seasonNumber (correctedMatch meta review decision))
            (em_episodeNumber (correctedMatch meta review decision))"
    by (simp add: correctedMatch_def Let_def)
  show "episodeTitleFor meta s e = title"
    if "find (\<lambda>x. si_seasonNumber x = s) (seasons meta) = Some season
        \<and> find (\<lambda>x. ae_number x = e) (si_episodes season) = Some episode
        \<and> ae_title episode = Some title"
    using that by (intro episodeTitleFor_found [of s meta season e episode]) simp_all
  show "episodeTitleFor meta s e = str ''Episode '' @ decimalDigits e"
    if "\<not> (\<exists>season episode title.
              find (\<lambda>x. si_seasonNumber x = s) (seasons meta) = Some season
              \<and> find (\<lambda>x. ae_number x = e) (si_episodes season) = Some episode
              \<and> ae_title episode = Some title)
        \<and> isSafeInteger e"
    using that by (intro episodeTitleFor_fallback) simp_all
  show "em_confidence (correctedMatch meta review decision) = 1"
    by (simp add: correctedMatch_def Let_def)
  show "em_reasoning (correctedMatch meta review decision) = str ''User-approved''"
    by (simp add: correctedMatch_def Let_def)
next
  assume r: "resolvedReviews st (ri_id review) = Some decision \<and> \<not> rd_approved decision
        \<and> animeForRename (pf_seriesMetadata input) = Some anime"
  then show "reviewIteration input review st
          = Retry (st\<lparr> resolvedReviews := (resolvedReviews st)(ri_id review := None) \<rparr>)"
    by (simp add: reviewIteration_def)
  show "reviewIteration input review
             (st\<lparr> resolvedReviews := (resolvedReviews st)(ri_id review := None) \<rparr>) = Suspended"
    by (simp add: reviewIteration_def)
  from r show "queryPendingReviews (st\<lparr> resolvedReviews := (resolvedReviews st)(ri_id review := None) \<rparr>)
             = queryPendingReviews st"
    by (intro query_after_delete [of st _ decision]) simp_all
next
  show "queryPendingReviews st
        = filter (\<lambda>r. \<not> (\<exists>d. resolvedReviews st (ri_id r) = Some d \<and> rd_approved d))
            (pendingReviews st)"
    by (rule query_listing)
next
  assume settled: "reviewIteration input review st = Settled st'"
  then show "queryPendingReviews st' = queryPendingReviews st" by (rule query_after_settled)
  from query_after_settled_state [OF settled]
  show "resolvedReviews st' = resolvedReviews st" and "pendingReviews st' = pendingReviews st"
    by simp_all
next
  assume a: "rd_approved signal"
  then show "length (queryPendingReviews (reviewDecisionSignal signal st))
          \<le> length (queryPendingReviews st)" by (rule query_after_approval)
  from a show "queryPendingReviews (reviewDecisionSignal signal st)
          = filter (\<lambda>r. ri_id r \<noteq> rd_reviewItemId signal) (queryPendingReviews st)"
    by (rule query_approval_removes)
next
  assume r: "\<not> rd_approved signal"
  then show "length (queryPendingReviews st)
          \<le> length (queryPendingReviews (reviewDecisionSignal signal st))"
    by (rule query_after_rejection)
  from r show "queryPendingReviews (reviewDecisionSignal signal st)
          = filter (\<lambda>r. ri_id r = rd_reviewItemId signal
                       \<or> \<not> (\<exists>d. resolvedReviews st (ri_id r) = Some d \<and> rd_approved d))
              (pendingReviews st)"
    by (rule query_rejection_listing)
next
  assume "\<not> rd_approved signal
        \<and> (\<forall>d. resolvedReviews st (rd_reviewItemId signal) = Some d \<longrightarrow> \<not> rd_approved d)"
  then show "queryPendingReviews (reviewDecisionSignal signal st) = queryPendingReviews st"
    by (intro query_rejection_unchanged) simp_all
next
  assume "\<not> rd_approved signal
        \<and> resolvedReviews st (rd_reviewItemId signal) = Some stored \<and> rd_approved stored"
  then show "length (queryPendingReviews (reviewDecisionSignal signal st))
          = length (queryPendingReviews st)
            + length (filter (\<lambda>r. ri_id r = rd_reviewItemId signal) (pendingReviews st))"
    by (intro query_rejection_relists [of signal st stored]) simp_all
qed

lemma ids_X: "ri_id reviewA = str ''d1-a.mkv''" "ri_id reviewB = str ''d1-b.mkv''"
  by (simp_all add: reviewA_def reviewB_def reviewItemFor_def inputX_def matchX_def str_def)

lemma anime_X: "animeForRename (pf_seriesMetadata inputX) = Some animeOfMetaX"
  by (simp add: animeForRename_def inputX_def metaX_def animeOfMetaX_def)

lemma query_X:
  "queryPendingReviews reviewState0 = [reviewA, reviewB]"
  "queryPendingReviews (reviewDecisionSignal (decide reviewB True None) reviewState0) = [reviewA]"
  "queryPendingReviews (reviewDecisionSignal (decide reviewB False None)
      (reviewDecisionSignal (decide reviewB True None) reviewState0)) = [reviewA, reviewB]"
  by (simp_all add: queryPendingReviews_def reviewDecisionSignal_def reviewState0_def decide_def
        ids_X str_def)

lemma copy_succeeds:
  "fs (em_filePath m) \<noteq> None \<Longrightarrow>
     \<exists>fs'. copyEpisodeToWorkDir m a e r d fs = Inr (fs', renamedRecord m a e r)"
  by (auto simp: copyEpisodeToWorkDir_def Let_def)

theorem review_loop_settles_on_approval_witness:
  "resolvedReviews reviewState0 (ri_id reviewA) = None
   \<and> reviewIteration inputX reviewA reviewState0 = Suspended
   \<and> resolvedReviews (reviewDecisionSignal (decide reviewA False (Some 1)) reviewState0) (ri_id reviewA)
        = Some (decide reviewA False (Some 1))
   \<and> \<not> rd_approved (decide reviewA False (Some 1))
   \<and> reviewIteration inputX reviewA (reviewDecisionSignal (decide reviewA False (Some 1)) reviewState0)
        = Retry ((reviewDecisionSignal (decide reviewA False (Some 1)) reviewState0)
            \<lparr> resolvedReviews :=
                (resolvedReviews (reviewDecisionSignal (decide reviewA False (Some 1)) reviewState0))
                  (ri_id reviewA := None) \<rparr>)
   \<and> queryPendingReviews (reviewDecisionSignal (decide reviewA False (Some 1)) reviewState0)
        = queryPendingReviews reviewState0
   \<and> rd_approved (decide reviewA True (Some 1))
   \<and> length (queryPendingReviews (reviewDecisionSignal (decide reviewA True (Some 1)) reviewState0))
        \<le> length (queryPendingReviews reviewState0)
   \<and> em_episodeNumber (correctedMatch metaX reviewA (decide reviewA True (Some 1))) = 1
   \<and> em_episodeTitle (correctedMatch metaX reviewA (decide reviewA True (Some 1))) = str ''Pilot''
   \<and> em_reasoning (correctedMatch metaX reviewA (decide reviewA True (Some 1))) = str ''User-approved''
   \<and> resolvedReviews (reviewDecisionSignal (decide reviewA True (Some 1)) reviewState0) (ri_id reviewA)
        = Some (decide reviewA True (Some 1))
   \<and> (\<exists>st'. reviewIteration inputX reviewA
                  (reviewDecisionSignal (decide reviewA True (Some 1)) reviewState0) = Settled st'
             \<and> queryPendingReviews st'
                  = queryPendingReviews (reviewDecisionSignal (decide reviewA True (Some 1)) reviewState0)
             \<and> resolvedReviews st' (rd_reviewItemId (decide reviewA False (Some 1)))
                  = Some (decide reviewA True (Some 1))
             \<and> length (queryPendingReviews (reviewDecisionSignal (decide reviewA False (Some 1)) st'))
                  = length (queryPendingReviews st') + 1)
   \<and> queryPendingReviews (reviewDecisionSignal (decide reviewB True None) reviewState0) = [reviewA]
   \<and> find (\<lambda>x. si_seasonNumber x = 1) (seasons metaX) = Some (hd (seasons metaX))
   \<and> find (\<lambda>x. ae_number x = 1) (si_episodes (hd (seasons metaX)))
        = Some (hd (si_episodes (hd (seasons metaX))))
   \<and> ae_title (hd (si_episodes (hd (seasons metaX)))) = Some (str ''Pilot'')
   \<and> episodeTitleFor metaX 1 1 = str ''Pilot''
   \<and> isSafeInteger 2
   \<and> episodeTitleFor metaX 1 2 = str ''Episode 2''"
proof -
  let ?rej = "decide reviewA False (Some 1)"
  let ?app = "decide reviewA True (Some 1)"
  let ?stR = "reviewDecisionSignal ?rej reviewState0"
  have h0: "resolvedReviews reviewState0 (ri_id reviewA) = None"
    by (simp add: reviewState0_def)
  have hR: "resolvedReviews ?stR (ri_id reviewA) = Some ?rej"
    by (simp add: reviewDecisionSignal_def decide_def)
  have nR: "\<not> rd_approved ?rej" by (simp add: decide_def)
  have aA: "rd_approved ?app" by (simp add: decide_def)
  have fresh: "\<forall>d. resolvedReviews reviewState0 (rd_reviewItemId ?rej) = Some d \<longrightarrow> \<not> rd_approved d"
    by (simp add: reviewState0_def)
  note i1 = review_loop_settles_on_approval
    [where st = reviewState0 and review = reviewA and input = inputX and signal = ?rej]
  note i2 = review_loop_settles_on_approval
    [where st = ?stR and review = reviewA and input = inputX and decision = ?rej
       and anime = animeOfMetaX]
  note i3 = review_loop_settles_on_approval
    [where st = reviewState0 and review = reviewA and meta = metaX and decision = ?app
       and signal = ?app]
  from i1 h0 have c1: "reviewIteration inputX reviewA reviewState0 = Suspended" by blast
  from i2 hR nR anime_X have c2: "reviewIteration inputX reviewA ?stR
        = Retry (?stR\<lparr> resolvedReviews := (resolvedReviews ?stR)(ri_id reviewA := None) \<rparr>)"
    by blast
  from i1 nR fresh have c3: "queryPendingReviews ?stR = queryPendingReviews reviewState0"
    by blast
  from i3 aA have c4: "length (queryPendingReviews (reviewDecisionSignal ?app reviewState0))
        \<le> length (queryPendingReviews reviewState0)" by blast
  from i3 have c5: "em_episodeNumber (correctedMatch metaX reviewA ?app) = 1"
    by (simp add: decide_def)
  from i3 have "em_episodeTitle (correctedMatch metaX reviewA ?app)
        = episodeTitleFor metaX (em_seasonNumber (correctedMatch metaX reviewA ?app))
            (em_episodeNumber (correctedMatch metaX reviewA ?app))" by blast
  then have c6: "em_episodeTitle (correctedMatch metaX reviewA ?app) = str ''Pilot''"
    by (simp add: correctedMatch_def Let_def decide_def reviewA_def reviewItemFor_def matchX_def
          episodeTitleFor_def metaX_def)
  from i3 have c7: "em_reasoning (correctedMatch metaX reviewA ?app) = str ''User-approved''"
    by blast
  let ?stA = "reviewDecisionSignal ?app reviewState0"
  have hA: "resolvedReviews ?stA (ri_id reviewA) = Some ?app"
    by (simp add: reviewDecisionSignal_def decide_def)
  have src: "files ?stA (em_filePath (correctedMatch (pf_seriesMetadata inputX) reviewA ?app)) \<noteq> None"
    by (simp add: reviewDecisionSignal_def reviewState0_def correctedMatch_def Let_def
          reviewA_def reviewItemFor_def matchX_def fsX_def)
  from copy_succeeds [of "files ?stA" "correctedMatch (pf_seriesMetadata inputX) reviewA ?app", OF src]
  obtain fs' where
    cp: "copyEpisodeToWorkDir (correctedMatch (pf_seriesMetadata inputX) reviewA ?app) animeOfMetaX
           (join (pf_seriesRootDir inputX) (str ''_episodes'')) (pf_seriesRootDir inputX)
           (pf_dryRun inputX) (files ?stA)
         = Inr (fs', renamedRecord (correctedMatch (pf_seriesMetadata inputX) reviewA ?app) animeOfMetaX
                  (join (pf_seriesRootDir inputX) (str ''_episodes'')) (pf_seriesRootDir inputX))"
    by blast
  note i4 = review_loop_settles_on_approval
    [where st = ?stA and review = reviewA and input = inputX and decision = ?app
       and anime = animeOfMetaX]
  from i4 hA aA anime_X have "reviewIteration inputX reviewA ?stA =
          (case copyEpisodeToWorkDir (correctedMatch (pf_seriesMetadata inputX) reviewA ?app) animeOfMetaX
                  (join (pf_seriesRootDir inputX) (str ''_episodes'')) (pf_seriesRootDir inputX)
                  (pf_dryRun inputX) (files ?stA) of
             Inl err \<Rightarrow> Thrown err
           | Inr (fs', renamed) \<Rightarrow>
               Settled (?stA\<lparr> renamedFiles := renamedFiles ?stA @ [renamed],
                            episodesCopied := episodesCopied ?stA + 1,
                            currentFile := None, files := fs' \<rparr>))"
    by blast
  then obtain st' where settled: "reviewIteration inputX reviewA ?stA = Settled st'"
    unfolding cp by simp
  from review_loop_settles_on_approval
    [where st = ?stA and review = reviewA and input = inputX and st' = st'] settled
  have same: "queryPendingReviews st' = queryPendingReviews ?stA"
    "resolvedReviews st' = resolvedReviews ?stA" "pendingReviews st' = pendingReviews ?stA"
    by blast+
  have idR: "rd_reviewItemId ?rej = ri_id reviewA" by (simp add: decide_def)
  have stored: "resolvedReviews st' (rd_reviewItemId ?rej) = Some ?app"
    unfolding same(2) idR by (rule hA)
  have "filter (\<lambda>r. ri_id r = rd_reviewItemId ?rej) (pendingReviews st') = [reviewA]"
    unfolding same(3) idR
    by (simp add: reviewDecisionSignal_def reviewState0_def ids_X str_def)
  then have one: "length (filter (\<lambda>r. ri_id r = rd_reviewItemId ?rej) (pendingReviews st')) = 1"
    by simp
  from review_loop_settles_on_approval
    [where st = st' and signal = ?rej and stored = ?app] nR stored aA
  have "length (queryPendingReviews (reviewDecisionSignal ?rej st'))
          = length (queryPendingReviews st')
            + length (filter (\<lambda>r. ri_id r = rd_reviewItemId ?rej) (pendingReviews st'))"
    by blast
  then have again: "length (queryPendingReviews (reviewDecisionSignal ?rej st'))
          = length (queryPendingReviews st') + 1"
    unfolding one .
  from settled same(1) stored again
  have c8: "\<exists>st'. reviewIteration inputX reviewA ?stA = Settled st'
             \<and> queryPendingReviews st' = queryPendingReviews ?stA
             \<and> resolvedReviews st' (rd_reviewItemId ?rej) = Some ?app
             \<and> length (queryPendingReviews (reviewDecisionSignal ?rej st'))
                  = length (queryPendingReviews st') + 1" by blast
  have aB: "rd_approved (decide reviewB True None)" by (simp add: decide_def)
  from review_loop_settles_on_approval
    [where st = reviewState0 and signal = "decide reviewB True None"] aB
  have "queryPendingReviews (reviewDecisionSignal (decide reviewB True None) reviewState0)
          = filter (\<lambda>r. ri_id r \<noteq> rd_reviewItemId (decide reviewB True None))
              (queryPendingReviews reviewState0)"
    by blast
  then have c9: "queryPendingReviews (reviewDecisionSignal (decide reviewB True None) reviewState0)
          = [reviewA]"
    by (simp add: query_X decide_def ids_X str_def)
  have f1: "find (\<lambda>x. si_seasonNumber x = 1) (seasons metaX) = Some (hd (seasons metaX))"
    by (simp add: metaX_def)
  have f2: "find (\<lambda>x. ae_number x = 1) (si_episodes (hd (seasons metaX)))
        = Some (hd (si_episodes (hd (seasons metaX))))"
    by (simp add: metaX_def)
  have f3: "ae_title (hd (si_episodes (hd (seasons metaX)))) = Some (str ''Pilot'')"
    by (simp add: metaX_def)
  from review_loop_settles_on_approval
    [where meta = metaX and s = 1 and e = 1 and season = "hd (seasons metaX)"
       and episode = "hd (si_episodes (hd (seasons metaX)))" and title = "str ''Pilot''"] f1 f2 f3
  have c10: "episodeTitleFor metaX 1 1 = str ''Pilot''" by blast
  have safe: "isSafeInteger 2" by (simp add: isSafeInteger_def)
  have none: "\<not> (\<exists>season episode title.
              find (\<lambda>x. si_seasonNumber x = 1) (seasons metaX) = Some season
              \<and> find (\<lambda>x. ae_number x = 2) (si_episodes season) = Some episode
              \<and> ae_title episode = Some title)"
    by (simp add: metaX_def)
  from review_loop_settles_on_approval [where meta = metaX and s = 1 and e = 2] none safe
  have "episodeTitleFor metaX 1 2 = str ''Episode '' @ decimalDigits 2" by blast
  then have c11: "episodeTitleFor metaX 1 2 = str ''Episode 2''"
    by (simp add: decimalDigits.simps str_def)
  from h0 c1 hR nR c2 c3 aA c4 c5 c6 c7 hA c8 c9 f1 f2 f3 c10 safe c11 show ?thesis by blast
qed

text \<open>
  C4 as stated fails. With two reviews pending and the loop waiting for the first, an
  approving decision for the second shortens the queried list at once, before the loop has
  processed anything; a rejecting decision for the second then lengthens it again. The
  reasoning of an approved match is \<open>User-approved\<close>, not \<open>user-approved\<close>. And
  when the series metadata has no season, an approved decision ends the wait for its review
  without any file being copied.
\<close>

theorem review_pending_length_counterexample:
  "length (queryPendingReviews reviewState0) = 2
   \<and> length (queryPendingReviews (reviewDecisionSignal (decide reviewB True None) reviewState0)) = 1
   \<and> reviewLoop inputX [reviewA, reviewB]
         (reviewDecisionSignal (decide reviewB True None) reviewState0)
       = Inr ([reviewA, reviewB], reviewDecisionSignal (decide reviewB True None) reviewState0)
   \<and> \<not> rd_approved (decide reviewB False None)
   \<and> length (queryPendingReviews (reviewDecisionSignal (decide reviewB False None)
         (reviewDecisionSignal (decide reviewB True None) reviewState0))) = 2
   \<and> em_reasoning (correctedMatch metaX reviewA (decide reviewA True None)) \<noteq> str ''user-approved''
   \<and> rd_approved (decide reviewA True None)
   \<and> reviewIteration inputNoSeason reviewA
         (reviewDecisionSignal (decide reviewA True None) reviewState0)
       = Settled (reviewDecisionSignal (decide reviewA True None) reviewState0)
   \<and> renamedFiles (reviewDecisionSignal (decide reviewA True None) reviewState0) = []
   \<and> files (reviewDecisionSignal (decide reviewA True None) reviewState0) = fsX"
proof -
  have loop: "reviewLoop inputX [reviewA, reviewB]
         (reviewDecisionSignal (decide reviewB True None) reviewState0)
       = Inr ([reviewA, reviewB], reviewDecisionSignal (decide reviewB True None) reviewState0)"
    by (simp add: reviewIteration_def reviewDecisionSignal_def reviewState0_def decide_def
          ids_X str_def)
  have reason: "em_reasoning (correctedMatch metaX reviewA (decide reviewA True None)) \<noteq> str ''user-approved''"
    by (simp add: correctedMatch_def Let_def str_def)
  have l0: "length (queryPendingReviews reviewState0) = 2" by (simp add: query_X)
  have l1: "length (queryPendingReviews (reviewDecisionSignal (decide reviewB True None) reviewState0)) = 1"
    by (simp add: query_X)
  have l2: "length (queryPendingReviews (reviewDecisionSignal (decide reviewB False None)
         (reviewDecisionSignal (decide reviewB True None) reviewState0))) = 2"
    by (simp add: query_X)
  have rej: "\<not> rd_approved (decide reviewB False None)" by (simp add: decide_def)
  have app: "rd_approved (decide reviewA True None)" by (simp add: decide_def)
  have nos: "reviewIteration inputNoSeason reviewA
         (reviewDecisionSignal (decide reviewA True None) reviewState0)
       = Settled (reviewDecisionSignal (decide reviewA True None) reviewState0)"
    by (simp add: reviewIteration_def reviewDecisionSignal_def decide_def inputNoSeason_def
          animeForRename_def)
  have unch: "renamedFiles (reviewDecisionSignal (decide reviewA True None) reviewState0) = []"
    "files (reviewDecisionSignal (decide reviewA True None) reviewState0) = fsX"
    by (simp_all add: reviewDecisionSignal_def reviewState0_def)
  from l0 l1 loop rej l2 reason app nos unch show ?thesis by blast
qed

section \<open>The finalize gate\<close>

lemma finalizeSignal_props:
  "canFinalize (finalizeSignal d s) = canFinalize s"
  "outputFiles (finalizeSignal d s) = outputFiles s"
  "finalized (finalizeSignal d s) \<longleftrightarrow> finalized s \<or> (fd_approved d \<and> canFinalize s)"
  "rejected (finalizeSignal d s) \<longleftrightarrow> rejected s \<or> \<not> fd_approved d"
  by (auto simp: finalizeSignal_def)

lemma deliver_props:
  "canFinalize (deliver batch s) = canFinalize s"
  "outputFiles (deliver batch s) = outputFiles s"
  "finalized (deliver batch s) \<longleftrightarrow> finalized s \<or> ((\<exists>d \<in> set batch. fd_approved d) \<and> canFinalize s)"
  "rejected (deliver batch s) \<longleftrightarrow> rejected s \<or> (\<exists>d \<in> set batch. \<not> fd_approved d)"
proof -
  have "canFinalize (deliver batch s) = canFinalize s
      \<and> outputFiles (deliver batch s) = outputFiles s
      \<and> (finalized (deliver batch s) \<longleftrightarrow> finalized s \<or> ((\<exists>d \<in> set batch. fd_approved d) \<and> canFinalize s))
      \<and> (rejected (deliver batch s) \<longleftrightarrow> rejected s \<or> (\<exists>d \<in> set batch. \<not> fd_approved d))"
    unfolding deliver_def
  proof (induction batch arbitrary: s)
    case Nil
    show ?case by simp
  next
    case (Cons d batch)
    show ?case
      using Cons.IH [of "finalizeSignal d s"] finalizeSignal_props [of d s] by auto
  qed
  then show "canFinalize (deliver batch s) = canFinalize s"
    "outputFiles (deliver batch s) = outputFiles s"
    "finalized (deliver batch s) \<longleftrightarrow> finalized s \<or> ((\<exists>d \<in> set batch. fd_approved d) \<and> canFinalize s)"
    "rejected (deliver batch s) \<longleftrightarrow> rejected s \<or> (\<exists>d \<in> set batch. \<not> fd_approved d)"
    by blast+
qed

lemma awaitCondition_props:
  assumes "awaitCondition batches s = Some s'"
  shows "canFinalize s' = canFinalize s \<and> outputFiles s' = outputFiles s
       \<and> workflowStage s' = workflowStage s
       \<and> (finalized s' \<or> rejected s')
       \<and> (finalized s' \<longrightarrow> finalized s \<or> (\<exists>b \<in> set batches. \<exists>d \<in> set b. fd_approved d))
       \<and> (rejected s' \<longrightarrow> rejected s \<or> (\<exists>b \<in> set batches. \<exists>d \<in> set b. \<not> fd_approved d))"
  using assms
proof (induction batches arbitrary: s)
  case Nil
  then show ?case by (auto split: if_splits)
next
  case (Cons b batches)
  show ?case
  proof (cases "finalized s \<or> rejected s")
    case True
    with Cons.prems show ?thesis by auto
  next
    case False
    with Cons.prems have "awaitCondition batches (deliver b s) = Some s'" by simp
    from Cons.IH [OF this] deliver_props [of b s]
    have "canFinalize s' = canFinalize s \<and> outputFiles s' = outputFiles s
       \<and> (finalized s' \<or> rejected s')
       \<and> (finalized s' \<longrightarrow> finalized s \<or> (\<exists>b \<in> set (b # batches). \<exists>d \<in> set b. fd_approved d))
       \<and> (rejected s' \<longrightarrow> rejected s \<or> (\<exists>b \<in> set (b # batches). \<exists>d \<in> set b. \<not> fd_approved d))"
      by auto
    moreover have "workflowStage (deliver b s) = workflowStage s"
      unfolding deliver_def by (induction b arbitrary: s) (auto simp: finalizeSignal_def)
    with Cons.IH [OF \<open>awaitCondition batches (deliver b s) = Some s'\<close>]
    have "workflowStage s' = workflowStage s" by simp
    ultimately show ?thesis by blast
  qed
qed

lemma awaitCondition_no_signal:
  "\<not> finalized s \<Longrightarrow> \<not> rejected s \<Longrightarrow> awaitCondition [] s = None"
  by simp

text \<open>
  When \<open>canFinalize\<close> holds on entering stage 5 the gate is as claimed: without a signal
  the workflow stays blocked; if it returns, either it was rejected, is \<open>failed\<close> and left
  the output root as it was, or an approving signal was received.
\<close>

lemma finalize_gate_when_canFinalize:
  assumes can: "filter (\<lambda>r. fr_status r = folder_failed) folderResults = []"
      "allRenamedFilePaths \<noteq> []"
    and fresh: "\<not> finalized st"
  shows "(\<not> rejected st \<longrightarrow>
            organizeLibraryFromStage5 folderResults allRenamedFilePaths extra stagingShowDir
              outputDir stagingFiles dryRunFlag verifyOk [] st = None)
       \<and> (organizeLibraryFromStage5 folderResults allRenamedFilePaths extra stagingShowDir
              outputDir stagingFiles dryRunFlag verifyOk batches st = Some (s, res) \<longrightarrow>
            (rejected s \<and> workflowStage s = failed \<and> outputFiles s = outputFiles st)
            \<or> (\<exists>b \<in> set batches. \<exists>d \<in> set b. fd_approved d))"
proof (intro conjI impI)
  assume "\<not> rejected st"
  with can fresh show "organizeLibraryFromStage5 folderResults allRenamedFilePaths extra
        stagingShowDir outputDir stagingFiles dryRunFlag verifyOk [] st = None"
    by (simp add: organizeLibraryFromStage5_def Let_def)
next
  let ?st5 = "st\<lparr> canFinalize := True, awaitingFinalApproval := True,
                    workflowStage := awaiting_finalize \<rparr>"
  assume run: "organizeLibraryFromStage5 folderResults allRenamedFilePaths extra stagingShowDir
              outputDir stagingFiles dryRunFlag verifyOk batches st = Some (s, res)"
  with can obtain waited where w: "awaitCondition batches ?st5 = Some waited"
    by (auto simp: organizeLibraryFromStage5_def Let_def split: option.splits)
  from awaitCondition_props [OF w] fresh have p:
    "outputFiles waited = outputFiles st" "finalized waited \<or> rejected waited"
    "finalized waited \<longrightarrow> (\<exists>b \<in> set batches. \<exists>d \<in> set b. fd_approved d)"
    by auto
  show "(rejected s \<and> workflowStage s = failed \<and> outputFiles s = outputFiles st)
            \<or> (\<exists>b \<in> set batches. \<exists>d \<in> set b. fd_approved d)"
  proof (cases "rejected waited")
    case True
    with run can w have "s = waited\<lparr> workflowStage := failed \<rparr>"
      by (simp add: organizeLibraryFromStage5_def Let_def)
    with True p show ?thesis by simp
  next
    case False
    with p show ?thesis by blast
  qed
qed

text \<open>
  C1. The claim is that stage 6 is reached, and files appear under the output root, only
  after a finalize signal with \<open>approved = true\<close>. In a run in which one folder failed
  \<open>canFinalize\<close> is false, the workflow does not wait, and with no signal at all, before or
  during stage 5, it copies the staging file to the output root and ends \<open>completed\<close>.
\<close>

theorem organizeLibrary_finalizes_without_signal:
  "map_option
     (\<lambda>(st, res). (workflowStage st, canFinalize st, finalized st, rejected st,
                    outputFiles st [str ''output'', str ''Sho X'', str ''Season 01'', str ''e1.mkv'']))
     (organizeLibraryFromStage5 [completedFolderX, failedFolderX] [destX] []
        [str ''staging'', str ''wf'', str ''Sho X''] [str ''output'', str ''Sho X'']
        [stagingFileX] False True [] (stateBeforeStage5 [] Map.empty))
   = Some (completed, False, False, False, Some 10)"
  by (simp add: organizeLibraryFromStage5_def stateBeforeStage5_def deliver_def
        initialLibraryState_def completedFolderX_def failedFolderX_def stagingFileX_def
        copyToOutput_def joinPath_def relative_def libraryResult_def Let_def str_def)

section \<open>Folders without underscore files, and with distinct names\<close>

lemma listVideoFilesRecursive_spec:
  "noUnderscoreFiles entries \<Longrightarrow>
     listVideoFilesRecursive directory entries = videoFilesUnder directory entries"
proof (induction directory entries rule: listVideoFilesRecursive.induct)
  case (1 directory)
  show ?case by simp
next
  case (2 directory name node entries)
  then show ?case by (cases node) auto
qed

text \<open>
  On such folders the result partitions the video files of the specification's walk.
\<close>

lemma detectEpisodeFiles_partition_spec:
  assumes "noUnderscoreFiles entries"
  shows "length (episodes (detectEpisodeFiles folderPath entries))
           + length (nonEpisodes (detectEpisodeFiles folderPath entries))
           = length (videoFilesUnder folderPath entries)
       \<and> set (episodes (detectEpisodeFiles folderPath entries))
             \<union> set (nonEpisodes (detectEpisodeFiles folderPath entries))
           = set (videoFilesUnder folderPath entries)
       \<and> set (episodes (detectEpisodeFiles folderPath entries))
             \<inter> set (nonEpisodes (detectEpisodeFiles folderPath entries)) = {}"
  using detectEpisodeFiles_partition [of folderPath entries]
    listVideoFilesRecursive_spec [OF assms, of folderPath]
  by simp

lemma listAllFilesRecursive_relative:
  "listAllFilesRecursive d es = map (\<lambda>r. d @ r) (relativeFiles es)"
proof (induction d es rule: listAllFilesRecursive.induct)
  case (1 directory)
  show ?case by simp
next
  case (2 directory name node entries)
  then show ?case by (cases node) (auto simp: join_def)
qed

lemma relativeFiles_head:
  "r \<in> set (relativeFiles es) \<Longrightarrow> r \<noteq> [] \<and> hd r \<in> fst ` set es"
proof (induction es rule: relativeFiles.induct)
  case 1
  then show ?case by simp
next
  case (2 name node entries)
  then show ?case by (cases node) force+
qed

lemma lookupIn_skip:
  "r \<noteq> [] \<Longrightarrow> hd r \<noteq> name \<Longrightarrow> lookupIn ((name, node) # es) r = lookupIn es r"
proof -
  assume "r \<noteq> []" "hd r \<noteq> name"
  then obtain n r' where r: "r = n # r'" "n \<noteq> name" by (cases r) auto
  then show ?thesis by (cases r') auto
qed

lemma sizes_by_lookup:
  "distinctNames es \<Longrightarrow>
     sum_list (map (\<lambda>r. case map_option statSize (lookupIn es r) of Some s \<Rightarrow> s | None \<Rightarrow> 0)
                 (relativeFiles es)) = fileSizes es"
proof (induction es rule: relativeFiles.induct)
  case 1
  show ?case by simp
next
  case (2 name node entries)
  let ?g = "\<lambda>es r. case map_option statSize (lookupIn es r) of Some s \<Rightarrow> s | None \<Rightarrow> 0"
  from "2.prems" have fresh: "name \<notin> fst ` set entries" and dn: "distinctNames entries"
    by auto
  have rest: "sum_list (map (?g ((name, node) # entries)) (relativeFiles entries))
                = fileSizes entries"
  proof -
    have "map (?g ((name, node) # entries)) (relativeFiles entries)
            = map (?g entries) (relativeFiles entries)"
    proof (rule map_cong [OF refl])
      fix r assume "r \<in> set (relativeFiles entries)"
      from relativeFiles_head [OF this] fresh have "r \<noteq> []" "hd r \<noteq> name" by auto
      then show "?g ((name, node) # entries) r = ?g entries r" by (simp add: lookupIn_skip)
    qed
    then have "sum_list (map (?g ((name, node) # entries)) (relativeFiles entries))
            = sum_list (map (?g entries) (relativeFiles entries))"
      by (rule arg_cong)
    also have "\<dots> = fileSizes entries" by (rule "2.IH"(2) [OF dn])
    finally show ?thesis .
  qed
  have split: "sum_list (map (?g ((name, node) # entries)) (relativeFiles ((name, node) # entries)))
      = sum_list (map (?g ((name, node) # entries))
          (case node of
             Dir dirSize sub \<Rightarrow> map (\<lambda>r. name # r) (relativeFiles sub)
           | File fileSize \<Rightarrow> [[name]]
           | Other otherSize \<Rightarrow> []))
        + fileSizes entries"
    using rest by (simp only: relativeFiles.simps map_append sum_list_append)
  show ?case
  proof (cases node)
    case (File s)
    show ?thesis unfolding split by (simp add: File statSize_def)
  next
    case (Other s)
    show ?thesis unfolding split by (simp add: Other)
  next
    case (Dir dirSize sub)
    with "2.prems" have ds: "distinctNames sub" by simp
    have "map (?g ((name, node) # entries)) (map (\<lambda>r. name # r) (relativeFiles sub))
            = map (?g sub) (relativeFiles sub)"
      unfolding map_map
    proof (rule map_cong [OF refl])
      fix r assume "r \<in> set (relativeFiles sub)"
      from relativeFiles_head [OF this] obtain n r' where "r = n # r'" by (cases r) auto
      then show "(?g ((name, node) # entries) \<circ> (\<lambda>r. name # r)) r = ?g sub r"
        using Dir by simp
    qed
    then have "sum_list (map (?g ((name, node) # entries)) (map (\<lambda>r. name # r) (relativeFiles sub)))
            = sum_list (map (?g sub) (relativeFiles sub))"
      by (rule arg_cong)
    also have "\<dots> = fileSizes sub" by (rule "2.IH"(1) [OF Dir ds])
    finally have "sum_list (map (?g ((name, node) # entries)) (map (\<lambda>r. name # r) (relativeFiles sub)))
            = fileSizes sub" .
    then show ?thesis unfolding split by (simp add: Dir)
  qed
qed

text \<open>
  In a tree with distinct names \<open>totalSize\<close> is the sum of the sizes of its regular files.
\<close>

lemma totalSize_fileSizes:
  assumes "distinctNames es"
  shows "totalSize d es = fileSizes es"
proof -
  have "totalSize d es
          = sum_list (map (\<lambda>r. case stat d es (d @ r) of Some s \<Rightarrow> s | None \<Rightarrow> 0)
                        (relativeFiles es))"
    by (simp add: totalSize_def listAllFilesRecursive_relative o_def)
  also have "\<dots> = sum_list (map (\<lambda>r. case map_option statSize (lookupIn es r) of
                                         Some s \<Rightarrow> s | None \<Rightarrow> 0) (relativeFiles es))"
    by (simp add: stat_def isPrefixOf_def)
  also have "\<dots> = fileSizes es" by (rule sizes_by_lookup [OF assms])
  finally show ?thesis .
qed

end
